theory Spec2Isabelle
  imports Main
begin

section \<open>JavaScript values and thrown errors\<close>

text \<open>
  A thrown JavaScript \<open>Error\<close> carries a \<open>message\<close> and a \<open>stack\<close>; either may
  be missing (\<open>undefined\<close>), which \<open>logProcessingError\<close> guards with \<open>||\<close>.
\<close>

datatype error = Error (err_message: "string option") (err_stack: "string option")

text \<open>
  What a loader (a database lookup) hands back: a row object, \<open>null\<close> or
  \<open>undefined\<close>. An object is truthy, the other two are falsy; only
  \<open>undefined\<close> fails the test \<open>cached !== undefined\<close>.
\<close>

datatype 'a js = Undefined | Null | Obj 'a

fun truthy :: "'a js \<Rightarrow> bool" where
  "truthy (Obj _) = True"
| "truthy _ = False"

text \<open>An awaited call either throws (\<open>Inl\<close>) or returns (\<open>Inr\<close>).\<close>

type_synonym 'a result = "error + 'a"

section \<open>services/config-cache.js\<close>

subsection \<open>The module state\<close>

text \<open>
  The module owns one \<open>NodeCache\<close> and the counters \<open>stats = {hits, misses, errors}\<close>.
  An entry of the cache is a value with the instant at which it expires. Two further
  fields make the environment explicit: \<open>now\<close> is the wall clock (\<open>Date.now()\<close>, in
  milliseconds) and \<open>fetchCalls\<close> counts how often a \<open>fetchFunction\<close> has been
  invoked, so that "the loader ran once" is a statement about the state.
\<close>

record 'a config_cache =
  cache :: "string \<rightharpoonup> ('a js \<times> nat)"
  hits :: nat
  misses :: nat
  errors :: nat
  now :: nat
  fetchCalls :: nat

text \<open>
  Modelled from the spec: the \<open>node-cache\<close> package is a dependency, not a file of the
  repository. Following the spec's Cache Entry (value, loaded_at, ttl; "no cache entry
  is returned once now > loaded_at + ttl"), \<open>set\<close> stamps the entry with \<open>now + stdTTL\<close>
  (\<open>stdTTL: 300\<close> seconds in the source), \<open>get\<close> answers \<open>undefined\<close> for a missing
  or expired key and drops the expired entry, and \<open>del\<close> removes the key. The periodic
  sweep (\<open>checkperiod\<close>) only removes entries that \<open>get\<close> would no longer return, so it
  is not modelled.
\<close>

definition stdTTL :: nat where
  "stdTTL = 300 * 1000"

definition cache_get :: "string \<Rightarrow> 'a config_cache \<Rightarrow> 'a js \<times> 'a config_cache" where
  "cache_get k s =
     (case cache s k of
        None \<Rightarrow> (Undefined, s)
      | Some (v, t) \<Rightarrow>
          if t < now s then (Undefined, s\<lparr>cache := (cache s)(k := None)\<rparr>)
          else (v, s))"

definition cache_set :: "string \<Rightarrow> 'a js \<Rightarrow> 'a config_cache \<Rightarrow> 'a config_cache" where
  "cache_set k v s = s\<lparr>cache := (cache s)(k \<mapsto> (v, now s + stdTTL))\<rparr>"

definition cache_del :: "string \<Rightarrow> 'a config_cache \<Rightarrow> 'a config_cache" where
  "cache_del k s = s\<lparr>cache := (cache s)(k := None)\<rparr>"

subsection \<open>Loaders\<close>

text \<open>
  A \<open>fetchFunction\<close> is a collaborator: a database lookup whose answer may change
  from one invocation to the next. It is given its argument and the number of loader
  invocations made before this one, and answers with what the awaited call does
  (throw or return) and how long it took.
\<close>

type_synonym 'a fetchFunction = "string \<Rightarrow> nat \<Rightarrow> 'a js result \<times> nat"

definition await_fetch ::
  "'a fetchFunction \<Rightarrow> string \<Rightarrow> 'a config_cache \<Rightarrow> 'a js result \<times> 'a config_cache" where
  "await_fetch fetchFunction arg s =
     (let (r, took) = fetchFunction arg (fetchCalls s)
      in (r, s\<lparr>now := now s + took, fetchCalls := fetchCalls s + 1\<rparr>))"

subsection \<open>The getters\<close>

text \<open>
  \<open>getCachedWhatsAppConfig\<close>, \<open>getCachedBusiness\<close> and \<open>getCachedBusinessTone\<close>
  have the same body; they differ in the prefix of the cache key (and in the text
  printed by \<open>console.error\<close>). The body, with the key as a parameter, for a call
  during which no other call of a getter runs (the calls are made one after the
  other):
  \<^item> \<open>cache.get\<close>; a value other than \<open>undefined\<close> is a hit: \<open>stats.hits++\<close>, return it;
  \<^item> otherwise \<open>stats.misses++\<close> and \<open>await fetchFunction(arg)\<close>; a truthy answer is
    stored with \<open>cache.set\<close>, and the answer is returned either way;
  \<^item> the \<open>catch\<close> block: \<open>stats.errors++\<close> and \<open>return await fetchFunction(arg)\<close>,
    a second, direct invocation whose outcome (value or throw) is the caller's.
\<close>

definition getCachedBody ::
  "string \<Rightarrow> string \<Rightarrow> 'a fetchFunction \<Rightarrow> 'a config_cache \<Rightarrow> 'a js result \<times> 'a config_cache" where
  "getCachedBody cacheKey arg fetchFunction s =
     (let (cached, s1) = cache_get cacheKey s in
      if cached \<noteq> Undefined then (Inr cached, s1\<lparr>hits := hits s1 + 1\<rparr>)
      else
        (let s2 = s1\<lparr>misses := misses s1 + 1\<rparr>;
             (r, s3) = await_fetch fetchFunction arg s2
         in case r of
              Inr config \<Rightarrow>
                (Inr config, if truthy config then cache_set cacheKey config s3 else s3)
            | Inl e \<Rightarrow>
                await_fetch fetchFunction arg (s3\<lparr>errors := errors s3 + 1\<rparr>)))"

definition getCachedWhatsAppConfig ::
  "string \<Rightarrow> 'a fetchFunction \<Rightarrow> 'a config_cache \<Rightarrow> 'a js result \<times> 'a config_cache" where
  "getCachedWhatsAppConfig phoneNumberId fetchFunction =
     getCachedBody (''whatsapp_config:'' @ phoneNumberId) phoneNumberId fetchFunction"

definition getCachedBusiness ::
  "string \<Rightarrow> 'a fetchFunction \<Rightarrow> 'a config_cache \<Rightarrow> 'a js result \<times> 'a config_cache" where
  "getCachedBusiness businessId fetchFunction =
     getCachedBody (''business:'' @ businessId) businessId fetchFunction"

definition getCachedBusinessTone ::
  "string \<Rightarrow> 'a fetchFunction \<Rightarrow> 'a config_cache \<Rightarrow> 'a js result \<times> 'a config_cache" where
  "getCachedBusinessTone businessId fetchFunction =
     getCachedBody (''business_tone:'' @ businessId) businessId fetchFunction"

subsection \<open>A call at its suspension points\<close>

text \<open>
  A getter is an \<open>async\<close> function: it is suspended at \<open>await fetchFunction(...)\<close> in
  the \<open>try\<close> block, between \<open>cache.get\<close> and \<open>cache.set\<close>, and again at the one in the
  \<open>catch\<close> block, and other calls can run in between. A call that has been started is
  waiting for the loader invocation it issued in the \<open>try\<close> block (\<open>AwaitingFetch\<close>) or
  in the \<open>catch\<close> block (\<open>AwaitingFallback\<close>), each with the cache key, the argument,
  the number of the invocation and the instant at which it was issued, or it has
  returned or thrown (\<open>Returned\<close>).
\<close>

datatype 'a getter_call =
    AwaitingFetch string string nat nat
  | AwaitingFallback string string nat nat
  | Returned "'a js result"

text \<open>
  The call up to its first suspension: a hit returns; a miss counts and invokes the
  loader.
\<close>

definition getCached_begin ::
  "string \<Rightarrow> string \<Rightarrow> 'a config_cache \<Rightarrow> 'a getter_call \<times> 'a config_cache" where
  "getCached_begin cacheKey arg s =
     (let (cached, s1) = cache_get cacheKey s in
      if cached \<noteq> Undefined then (Returned (Inr cached), s1\<lparr>hits := hits s1 + 1\<rparr>)
      else (AwaitingFetch cacheKey arg (fetchCalls s1) (now s1),
            s1\<lparr>misses := misses s1 + 1, fetchCalls := fetchCalls s1 + 1\<rparr>))"

text \<open>
  The loader invocation the call is waiting for completes (the clock is then at least
  the instant of the invocation plus the time it took) and the call runs on: after
  the \<open>try\<close> block's invocation a value is stored if truthy and returned, a throw
  counts an error and invokes the loader again; after the \<open>catch\<close> block's invocation
  its outcome is the call's.
\<close>

definition getCached_resume ::
  "'a fetchFunction \<Rightarrow> 'a getter_call \<Rightarrow> 'a config_cache \<Rightarrow> 'a getter_call \<times> 'a config_cache" where
  "getCached_resume fetchFunction c s =
     (case c of
        AwaitingFetch cacheKey arg i t0 \<Rightarrow>
          (let (r, took) = fetchFunction arg i;
               s1 = s\<lparr>now := max (now s) (t0 + took)\<rparr>
           in case r of
                Inr config \<Rightarrow>
                  (Returned (Inr config),
                   if truthy config then cache_set cacheKey config s1 else s1)
              | Inl e \<Rightarrow>
                  (AwaitingFallback cacheKey arg (fetchCalls s1) (now s1),
                   s1\<lparr>errors := errors s1 + 1, fetchCalls := fetchCalls s1 + 1\<rparr>))
      | AwaitingFallback cacheKey arg i t0 \<Rightarrow>
          (let (r, took) = fetchFunction arg i
           in (Returned r, s\<lparr>now := max (now s) (t0 + took)\<rparr>))
      | Returned r \<Rightarrow> (c, s))"

text \<open>A call run to its end with nothing in between.\<close>

definition getCached_alone ::
  "string \<Rightarrow> string \<Rightarrow> 'a fetchFunction \<Rightarrow> 'a config_cache \<Rightarrow> 'a getter_call \<times> 'a config_cache" where
  "getCached_alone cacheKey arg fetchFunction s =
     (let (c1, s1) = getCached_begin cacheKey arg s;
          (c2, s2) = getCached_resume fetchFunction c1 s1
      in getCached_resume fetchFunction c2 s2)"

text \<open>The key is live when \<open>cache.get\<close> would answer with its value.\<close>

definition live :: "string \<Rightarrow> 'a config_cache \<Rightarrow> bool" where
  "live k s = (fst (cache_get k s) \<noteq> Undefined)"

text \<open>
  The three getters with the cache key each of them builds for the argument \<open>a\<close>.
\<close>

definition getters :: "string \<Rightarrow>
  (('a fetchFunction \<Rightarrow> 'a config_cache \<Rightarrow> 'a js result \<times> 'a config_cache) \<times> string) list" where
  "getters a =
     [(getCachedWhatsAppConfig a, ''whatsapp_config:'' @ a),
      (getCachedBusiness a, ''business:'' @ a),
      (getCachedBusinessTone a, ''business_tone:'' @ a)]"

text \<open>
  A key is dead when no clock value makes it live: it is absent, or (never produced by
  the getters, which store truthy values only) it holds \<open>undefined\<close>.
\<close>

definition dead :: "string \<Rightarrow> 'a config_cache \<Rightarrow> bool" where
  "dead k s = (case cache s k of None \<Rightarrow> True | Some (v, t) \<Rightarrow> v = Undefined)"

subsection \<open>Concrete inputs\<close>

text \<open>
  The state of the module when it is loaded, and three loaders: one whose first
  invocation throws and whose later ones find a row, one that finds no row, and one
  that always finds the row. Each invocation takes 20 ms.
\<close>

definition initial_cache :: "'a config_cache" where
  "initial_cache =
     \<lparr>cache = Map.empty, hits = 0, misses = 0, errors = 0, now = 0, fetchCalls = 0\<rparr>"

definition lost :: error where
  "lost = Error (Some ''Connection terminated'') None"

definition flaky :: "nat fetchFunction" where
  "flaky arg n = (if n = 0 then (Inl lost, 20) else (Inr (Obj 7), 20))"

definition absent :: "nat fetchFunction" where
  "absent arg n = (Inr Null, 20)"

definition steady :: "nat fetchFunction" where
  "steady arg n = (Inr (Obj 7), 20)"


text \<open>
  Three calls of \<open>getCachedWhatsAppConfig\<close> for one number that overlap: each is started
  before the loader invocation of any of them has completed, then the three
  invocations complete in turn. The calls after their start, and the state at the end.
\<close>

definition three_started ::
  "(nat getter_call \<times> nat getter_call \<times> nat getter_call) \<times> nat config_cache" where
  "three_started =
     (let k = ''whatsapp_config:'' @ ''15550001'';
          (c1, s1) = getCached_begin k ''15550001'' initial_cache;
          (c2, s2) = getCached_begin k ''15550001'' s1;
          (c3, s3) = getCached_begin k ''15550001'' s2
      in ((c1, c2, c3), s3))"

definition three_overlapping ::
  "(nat getter_call \<times> nat getter_call \<times> nat getter_call) \<times> nat config_cache" where
  "three_overlapping =
     (let ((c1, c2, c3), s3) = three_started;
          (d1, s4) = getCached_resume steady c1 s3;
          (d2, s5) = getCached_resume steady c2 s4;
          (d3, s6) = getCached_resume steady c3 s5
      in ((d1, d2, d3), s6))"

section \<open>services/message-processor.js\<close>

subsection \<open>Messages and conversation keys\<close>

text \<open>
  The fields of \<open>messageData\<close> that the processor and the pipeline read. The source's
  \<open>from\<close> and \<open>to\<close> are \<open>msg_from\<close> and \<open>msg_to\<close> here; \<open>businessId\<close> may be
  \<open>undefined\<close>.
\<close>

record messageData =
  messageId :: string
  msg_from :: string
  msg_to :: string
  businessId :: "string option"
  messageType :: string
  content :: string

text \<open>JavaScript's \<open>a || d\<close> on a string that may be undefined: an empty string is falsy.\<close>

definition orElse :: "string option \<Rightarrow> string \<Rightarrow> string" where
  "orElse a d = (case a of None \<Rightarrow> d | Some x \<Rightarrow> if x = [] then d else x)"

definition conversationKey :: "messageData \<Rightarrow> string" where
  "conversationKey md = orElse (businessId md) ''unknown'' @ '':'' @ msg_from md"

subsection \<open>The module state\<close>

text \<open>
  \<open>processInBackground\<close> registers one callback with \<open>setImmediate\<close> for every accepted
  message. A callback is a task here; tasks are numbered in the order of the calls, and
  the promise \<open>currentProcessing\<close> that a task creates is identified by the task's
  number. A task is at one of the places where the callback can be suspended:
  \<^item> \<open>Queued\<close>: the callback has not run yet;
  \<^item> \<open>Waiting p\<close>: in \<open>processWithLock\<close>, at \<open>await conversationLocks.get(key)\<close>, where
    the lock held the promise \<open>p\<close>;
  \<^item> \<open>Running\<close>: at \<open>await currentProcessing\<close>, the pipeline has been started;
  \<^item> \<open>Logging e\<close>: the pipeline threw \<open>e\<close>; at \<open>await logProcessingError(...)\<close>;
  \<^item> \<open>Notifying\<close>: at \<open>await sendErrorNotification(messageData)\<close>;
  \<^item> \<open>Finished\<close>: the \<open>finally\<close> block has run.
\<close>

datatype phase = Queued | Waiting nat | Running | Logging error | Notifying | Finished

record task =
  data :: messageData
  phase :: phase

text \<open>
  A webhook request that passed the in-memory check waits for the database lookup of
  \<open>isMessageProcessed\<close>; afterwards it has been answered.
\<close>

datatype request = Checking | Answered

text \<open>
  What the processor does that can be seen from outside: the pipeline of a task is
  started (\<open>processingFunction()\<close> is called), it settles, and the \<open>finally\<close> block of
  the task's callback calls \<open>markAsCompleted\<close>.
\<close>

datatype obs = Started nat | Settled nat "unit result" | Completed nat

text \<open>A row of the table \<open>processing_errors\<close>, as \<open>ensureErrorTableExists\<close> declares it.\<close>

record error_row =
  error_message :: string
  error_stack :: string
  retry_count :: int
  created_at :: nat
  updated_at :: nat

text \<open>
  The state: the set \<open>processingMessages\<close>, the map \<open>conversationLocks\<close> (from a key to
  the promise stored for it), the counters of \<open>stats\<close> (\<open>stats.errors\<close> is \<open>failures\<close>
  here, \<open>errors\<close> being the cache's counter), the pending \<open>setTimeout\<close> callbacks of
  \<open>markAsProcessing\<close> with the instant at which each is due, the clock, the webhook
  requests and the tasks, the table \<open>processing_errors\<close>, the numbers the apology of
  \<open>sendErrorNotification\<close> has been delivered to, what \<open>console.error\<close> printed in
  the \<open>catch\<close> blocks of this module, and the trace of observations.
\<close>

record processor =
  processingMessages :: "string set"
  conversationLocks :: "string \<rightharpoonup> nat"
  processed :: nat
  duplicates :: nat
  failures :: nat
  timers :: "(nat \<times> string) list"
  clock :: nat
  requests :: "(messageData \<times> request) list"
  tasks :: "task list"
  processing_errors :: "string \<rightharpoonup> error_row"
  notified :: "string list"
  console :: "string list"
  trace :: "obs list"

subsection \<open>The duplicate filter\<close>

text \<open>
  \<open>isMessageProcessed\<close> has one suspension point, \<open>await pool.query(...)\<close>. Up to it:
  a message found in \<open>processingMessages\<close> is a duplicate (\<open>stats.duplicates++\<close>,
  \<open>return true\<close>) and no query is made (\<open>Some True\<close>); otherwise the query is issued
  (\<open>None\<close>).
\<close>

definition isMessageProcessed_begin :: "string \<Rightarrow> processor \<Rightarrow> bool option \<times> processor" where
  "isMessageProcessed_begin mid s =
     (if mid \<in> processingMessages s then (Some True, s\<lparr>duplicates := duplicates s + 1\<rparr>)
      else (None, s))"

text \<open>
  After it: the query returned \<open>result.rows.length\<close> rows, or threw. A row makes the
  message a duplicate; the \<open>catch\<close> block prints the error and returns \<open>false\<close>.
\<close>

definition isMessageProcessed_end :: "nat result \<Rightarrow> processor \<Rightarrow> bool result \<times> processor" where
  "isMessageProcessed_end q s =
     (case q of
        Inr rows \<Rightarrow>
          if rows > 0 then (Inr True, s\<lparr>duplicates := duplicates s + 1\<rparr>) else (Inr False, s)
      | Inl e \<Rightarrow>
          (Inr False, s\<lparr>console := console s @ [''Error checking message duplicate:'']\<rparr>))"

text \<open>The whole function, for a caller that awaits it; \<open>q\<close> is what the query does.\<close>

definition isMessageProcessed :: "string \<Rightarrow> nat result \<Rightarrow> processor \<Rightarrow> bool result \<times> processor" where
  "isMessageProcessed mid q s =
     (case isMessageProcessed_begin mid s of
        (Some b, s') \<Rightarrow> (Inr b, s')
      | (None, s') \<Rightarrow> isMessageProcessed_end q s')"

text \<open>
  \<open>markAsProcessing\<close> adds the id and starts a timer of 120000 ms whose callback
  deletes the id; \<open>markAsCompleted\<close> deletes the id and does not touch the timer
  (the source keeps no handle of it).
\<close>

definition markAsProcessing :: "string \<Rightarrow> processor \<Rightarrow> processor" where
  "markAsProcessing mid s =
     s\<lparr>processingMessages := insert mid (processingMessages s),
       timers := timers s @ [(clock s + 120000, mid)]\<rparr>"

definition markAsCompleted :: "string \<Rightarrow> processor \<Rightarrow> processor" where
  "markAsCompleted mid s = s\<lparr>processingMessages := processingMessages s - {mid}\<rparr>"

text \<open>
  Time passes up to the instant \<open>t\<close>: the timer callbacks that are due by then run,
  each deleting its id.
\<close>

definition due :: "nat \<Rightarrow> nat \<times> string \<Rightarrow> bool" where
  "due t tm = (fst tm \<le> t)"

definition advance :: "nat \<Rightarrow> processor \<Rightarrow> processor" where
  "advance t s =
     s\<lparr>clock := max (clock s) t,
       processingMessages := processingMessages s - snd ` set (filter (due t) (timers s)),
       timers := filter (\<lambda>tm. \<not> due t tm) (timers s)\<rparr>"

subsection \<open>The error record\<close>

text \<open>
  The statement of \<open>logProcessingError\<close>, as the database runs it at the instant \<open>t\<close>:
  \<open>INSERT ... VALUES ($1, $2, $3, NOW()) ON CONFLICT (message_id) DO UPDATE SET
  error_message = $2, error_stack = $3, retry_count = retry_count + 1\<close>. A new row
  takes the defaults of the columns the statement leaves out (\<open>retry_count\<close> 0,
  \<open>updated_at\<close> now).
\<close>

definition upsert_error ::
  "string \<Rightarrow> string \<Rightarrow> string \<Rightarrow> nat \<Rightarrow> (string \<rightharpoonup> error_row) \<Rightarrow> (string \<rightharpoonup> error_row)" where
  "upsert_error mid msg stk t tbl =
     (case tbl mid of
        None \<Rightarrow>
          tbl(mid \<mapsto> \<lparr>error_message = msg, error_stack = stk, retry_count = 0,
                      created_at = t, updated_at = t\<rparr>)
      | Some r \<Rightarrow>
          tbl(mid \<mapsto> r\<lparr>error_message := msg, error_stack := stk,
                         retry_count := retry_count r + 1\<rparr>))"

text \<open>
  \<open>logProcessingError\<close> awaits \<open>pool.query\<close>. The query either throws (\<open>fault\<close> is the
  error: the connection is lost, the table is missing, the database refuses a value)
  or runs the statement. What it throws is caught and printed; nothing is thrown on.
\<close>

definition logProcessingError ::
  "string \<Rightarrow> error \<Rightarrow> error option \<Rightarrow> processor \<Rightarrow> unit result \<times> processor" where
  "logProcessingError mid err fault s =
     (case fault of
        None \<Rightarrow>
          (Inr (), s\<lparr>processing_errors :=
             upsert_error mid (orElse (err_message err) ''Unknown error'')
               (orElse (err_stack err) []) (clock s) (processing_errors s)\<rparr>)
      | Some logError \<Rightarrow>
          (Inr (), s\<lparr>console := console s @ [''Failed to log error to database:'']\<rparr>))"

text \<open>
  \<open>sendErrorNotification\<close> awaits \<open>WhatsAppService.sendMessage(messageData.from, ...)\<close>;
  \<open>q\<close> is what that call does. A failure is caught and printed.
\<close>

definition sendErrorNotification ::
  "messageData \<Rightarrow> unit result \<Rightarrow> processor \<Rightarrow> unit result \<times> processor" where
  "sendErrorNotification md q s =
     (case q of
        Inr _ \<Rightarrow> (Inr (), s\<lparr>notified := notified s @ [msg_from md]\<rparr>)
      | Inl sendError \<Rightarrow>
          (Inr (), s\<lparr>console := console s @ [''Failed to send error notification to user:'']\<rparr>))"

subsection \<open>The conversation lock\<close>

definition set_phase :: "nat \<Rightarrow> phase \<Rightarrow> processor \<Rightarrow> processor" where
  "set_phase n p s = s\<lparr>tasks := (tasks s)[n := (tasks s ! n)\<lparr>phase := p\<rparr>]\<rparr>"

definition key_of :: "processor \<Rightarrow> nat \<Rightarrow> string" where
  "key_of s n = conversationKey (data (tasks s ! n))"

text \<open>The promise of task \<open>p\<close> has settled once the task is past \<open>await currentProcessing\<close>.\<close>

definition settled :: "processor \<Rightarrow> nat \<Rightarrow> bool" where
  "settled s p =
     (p < length (tasks s) \<and>
      (case phase (tasks s ! p) of
         Logging _ \<Rightarrow> True | Notifying \<Rightarrow> True | Finished \<Rightarrow> True | _ \<Rightarrow> False))"

text \<open>
  \<open>processWithLock\<close>, after the wait: \<open>const currentProcessing = processingFunction()\<close>
  starts the pipeline, \<open>conversationLocks.set(conversationKey, currentProcessing)\<close>
  stores its promise, and the task is suspended at \<open>await currentProcessing\<close>.
\<close>

definition start :: "nat \<Rightarrow> processor \<Rightarrow> processor" where
  "start n s =
     set_phase n Running
       (s\<lparr>conversationLocks := (conversationLocks s)(key_of s n \<mapsto> n),
          trace := trace s @ [Started n]\<rparr>)"

text \<open>
  \<open>processWithLock\<close>, on entry: if \<open>conversationLocks.has(conversationKey)\<close> the task
  awaits the promise stored there, whatever its outcome will be; awaiting a promise
  that has already settled resumes at once. Without an entry the pipeline starts.
\<close>

definition processWithLock_enter :: "nat \<Rightarrow> processor \<Rightarrow> processor" where
  "processWithLock_enter n s =
     (case conversationLocks s (key_of s n) of
        Some p \<Rightarrow> if settled s p then start n s else set_phase n (Waiting p) s
      | None \<Rightarrow> start n s)"

text \<open>
  \<open>processWithLock\<close>, when its pipeline has settled with \<open>r\<close>: \<open>stats.processed++\<close> or
  \<open>stats.errors++\<close>, and the \<open>finally\<close> block \<open>conversationLocks.delete(conversationKey)\<close>.
\<close>

definition processWithLock_exit :: "nat \<Rightarrow> unit result \<Rightarrow> processor \<Rightarrow> processor" where
  "processWithLock_exit n r s =
     (let s1 = (case r of
                  Inr _ \<Rightarrow> s\<lparr>processed := processed s + 1\<rparr>
                | Inl _ \<Rightarrow> s\<lparr>failures := failures s + 1\<rparr>)
      in s1\<lparr>conversationLocks := (conversationLocks s1)(key_of s n := None)\<rparr>)"

subsection \<open>The background wrapper\<close>

text \<open>
  \<open>processInBackground\<close> itself only registers the callback. The callback's
  \<open>finally\<close> block is \<open>markAsCompleted(messageData.messageId)\<close>.
\<close>

definition processInBackground :: "messageData \<Rightarrow> processor \<Rightarrow> processor" where
  "processInBackground md s = s\<lparr>tasks := tasks s @ [\<lparr>data = md, phase = Queued\<rparr>]\<rparr>"

definition finish :: "nat \<Rightarrow> processor \<Rightarrow> processor" where
  "finish n s =
     set_phase n Finished
       ((markAsCompleted (messageId (data (tasks s ! n))) s)\<lparr>trace := trace s @ [Completed n]\<rparr>)"

text \<open>
  The callback after \<open>await processWithLock(...)\<close>: on success the \<open>finally\<close> block runs;
  on a throw the \<open>catch\<close> block calls \<open>logProcessingError\<close>, which issues its query.
\<close>

definition processInBackground_resume :: "nat \<Rightarrow> unit result \<Rightarrow> processor \<Rightarrow> processor" where
  "processInBackground_resume n r s =
     (case r of Inr _ \<Rightarrow> finish n s | Inl e \<Rightarrow> set_phase n (Logging e) s)"

text \<open>
  The callback after \<open>await logProcessingError(...)\<close>, inside its own \<open>try\<close>: a throw
  would be printed; either way \<open>sendErrorNotification\<close> is called next.
\<close>

definition processInBackground_logged :: "nat \<Rightarrow> unit result \<Rightarrow> processor \<Rightarrow> processor" where
  "processInBackground_logged n r s =
     set_phase n Notifying
       (case r of
          Inr _ \<Rightarrow> s
        | Inl logError \<Rightarrow> s\<lparr>console := console s @ [''Failed to log error:'']\<rparr>)"

text \<open>
  The callback after \<open>await sendErrorNotification(...)\<close>, inside its own \<open>try\<close>: a throw
  would be printed; either way the \<open>finally\<close> block runs.
\<close>

definition processInBackground_notified :: "nat \<Rightarrow> unit result \<Rightarrow> processor \<Rightarrow> processor" where
  "processInBackground_notified n r s =
     finish n
       (case r of
          Inr _ \<Rightarrow> s
        | Inl notifyError \<Rightarrow> s\<lparr>console := console s @ [''Failed to send error notification:'']\<rparr>)"

section \<open>routes/whatsapp-optimized.js: the webhook\<close>

text \<open>
  The handler of \<open>POST /webhook\<close> after \<open>await MessageProcessor.isMessageProcessed(...)\<close>:
  a duplicate is answered and dropped; otherwise \<open>markAsProcessing\<close>, the answer, and
  \<open>processInBackground\<close>. A throw would reach the handler's \<open>catch\<close>, which answers.
\<close>

definition webhook_resume :: "messageData \<Rightarrow> bool result \<Rightarrow> processor \<Rightarrow> processor" where
  "webhook_resume md r s =
     (case r of
        Inr isProcessed \<Rightarrow>
          if isProcessed then s
          else processInBackground md (markAsProcessing (messageId md) s)
      | Inl e \<Rightarrow> s\<lparr>console := console s @ [''Webhook error:'']\<rparr>)"

section \<open>The event loop\<close>

text \<open>
  Node runs one callback at a time; between two suspension points nothing else runs.
  An event is what makes the loop run a callback:
  \<^item> \<open>Webhook md\<close>: a delivery that \<open>processIncomingMessage\<close> turned into \<open>md\<close>; the
    handler runs up to the query of \<open>isMessageProcessed\<close>, or to its answer;
  \<^item> \<open>QueryDone h q\<close>: the query of request \<open>h\<close> gives \<open>q\<close> (the number of rows, or a throw);
  \<^item> \<open>Immediate\<close>: the oldest \<open>setImmediate\<close> callback runs (they run in the order in
    which they were registered);
  \<^item> \<open>Settle n r\<close>: the pipeline of task \<open>n\<close> settles with \<open>r\<close>;
  \<^item> \<open>LogDone n fault\<close>: the query of \<open>logProcessingError\<close> for task \<open>n\<close> completes;
  \<^item> \<open>NotifyDone n q\<close>: the \<open>sendMessage\<close> of \<open>sendErrorNotification\<close> for task \<open>n\<close>
    gives \<open>q\<close>;
  \<^item> \<open>Advance t\<close>: the clock reaches \<open>t\<close>.
  An event that names a request or a task that is not suspended at that place does
  nothing.
\<close>

datatype event =
    Webhook messageData
  | QueryDone nat "nat result"
  | Immediate
  | Settle nat "unit result"
  | LogDone nat "error option"
  | NotifyDone nat "unit result"
  | Advance nat

definition webhook :: "messageData \<Rightarrow> processor \<Rightarrow> processor" where
  "webhook md s =
     (case isMessageProcessed_begin (messageId md) s of
        (Some b, s') \<Rightarrow> webhook_resume md (Inr b) (s'\<lparr>requests := requests s' @ [(md, Answered)]\<rparr>)
      | (None, s') \<Rightarrow> s'\<lparr>requests := requests s' @ [(md, Checking)]\<rparr>)"

definition queryDone :: "nat \<Rightarrow> nat result \<Rightarrow> processor \<Rightarrow> processor" where
  "queryDone h q s =
     (if h < length (requests s) \<and> snd (requests s ! h) = Checking then
        (let md = fst (requests s ! h);
             (r, s1) = isMessageProcessed_end q s
         in webhook_resume md r (s1\<lparr>requests := (requests s1)[h := (md, Answered)]\<rparr>))
      else s)"

definition immediate :: "processor \<Rightarrow> processor" where
  "immediate s =
     (case find (\<lambda>n. phase (tasks s ! n) = Queued) [0..<length (tasks s)] of
        None \<Rightarrow> s
      | Some n \<Rightarrow> processWithLock_enter n s)"

text \<open>
  When the promise of task \<open>n\<close> settles, the callbacks that await it run in the order
  in which they began to wait: first the task's own \<open>processWithLock\<close> (it awaited the
  promise when it created it), then the tasks waiting at the lock, in the order of
  their callbacks, each starting its pipeline; the task's \<open>processInBackground\<close>
  callback, which awaits the promise of \<open>processWithLock\<close>, runs after them.
\<close>

definition waiters :: "processor \<Rightarrow> nat \<Rightarrow> nat list" where
  "waiters s p = filter (\<lambda>w. phase (tasks s ! w) = Waiting p) [0..<length (tasks s)]"

definition settle :: "nat \<Rightarrow> unit result \<Rightarrow> processor \<Rightarrow> processor" where
  "settle n r s =
     (if n < length (tasks s) \<and> phase (tasks s ! n) = Running then
        (let s1 = s\<lparr>trace := trace s @ [Settled n r]\<rparr>;
             s2 = processWithLock_exit n r s1;
             s3 = fold start (waiters s n) s2
         in processInBackground_resume n r s3)
      else s)"

definition logDone :: "nat \<Rightarrow> error option \<Rightarrow> processor \<Rightarrow> processor" where
  "logDone n fault s =
     (if n < length (tasks s) then
        (case phase (tasks s ! n) of
           Logging e \<Rightarrow>
             (let (r, s1) = logProcessingError (messageId (data (tasks s ! n))) e fault s
              in processInBackground_logged n r s1)
         | _ \<Rightarrow> s)
      else s)"

definition notifyDone :: "nat \<Rightarrow> unit result \<Rightarrow> processor \<Rightarrow> processor" where
  "notifyDone n q s =
     (if n < length (tasks s) \<and> phase (tasks s ! n) = Notifying then
        (let (r, s1) = sendErrorNotification (data (tasks s ! n)) q s
         in processInBackground_notified n r s1)
      else s)"

fun step :: "event \<Rightarrow> processor \<Rightarrow> processor" where
  "step (Webhook md) s = webhook md s"
| "step (QueryDone h q) s = queryDone h q s"
| "step Immediate s = immediate s"
| "step (Settle n r) s = settle n r s"
| "step (LogDone n fault) s = logDone n fault s"
| "step (NotifyDone n q) s = notifyDone n q s"
| "step (Advance t) s = advance t s"

definition run :: "event list \<Rightarrow> processor \<Rightarrow> processor" where
  "run evs s = fold step evs s"

text \<open>The state of the module when it is loaded.\<close>

definition initial_processor :: processor where
  "initial_processor =
     \<lparr>processingMessages = {}, conversationLocks = Map.empty, processed = 0, duplicates = 0,
      failures = 0, timers = [], clock = 0, requests = [], tasks = [],
      processing_errors = Map.empty, notified = [], console = [], trace = []\<rparr>"

section \<open>routes/whatsapp-optimized.js: the pipeline\<close>

subsection \<open>Rows, collaborators and effects\<close>

text \<open>
  A row handed back by a loader is a JavaScript object: a map from field names to
  values. Reading a field of it gives \<open>undefined\<close> when the field is missing; a
  template literal prints \<open>undefined\<close> as that word.
\<close>

type_synonym row = "string \<rightharpoonup> string"

definition field :: "string \<Rightarrow> row js \<Rightarrow> string option" where
  "field name v = (case v of Obj r \<Rightarrow> r name | _ \<Rightarrow> None)"

definition render :: "string option \<Rightarrow> string" where
  "render v = (case v of None \<Rightarrow> ''undefined'' | Some x \<Rightarrow> x)"

text \<open>
  What the pipeline does to the outside: the calls of \<open>WhatsAppService\<close> and
  \<open>DatabaseService\<close> that succeeded. \<open>MessageSaved mid u\<close> is \<open>saveMessage\<close> for the
  message \<open>mid\<close> (\<open>u\<close>: \<open>isFromUser\<close>; the reply is saved under an id built from \<open>mid\<close>).
\<close>

datatype effect =
    ConfigSet
  | ReadMarked string
  | Reaction string string string
  | ConversationOpened string string
  | MessageSaved string bool
  | MessageSent string string

text \<open>
  The services are not files of the repository; each awaited call is given by what
  it does in this run: the three loaders, and throw or return for the others.
  \<open>buildReply\<close> stands for \<open>processTextMessage\<close> or \<open>processMediaMessage\<close>, which
  compose calls of further services into the reply text, or throw.
\<close>

record collaborators =
  getWhatsAppConfigByPhoneNumber :: "row fetchFunction"
  getBusinessById :: "row fetchFunction"
  getBusinessTone :: "row fetchFunction"
  markMessageAsRead :: "unit result"
  sendReactionTyping :: "unit result"
  createOrGetConversation :: "string result"
  saveUserMessage :: "unit result"
  buildReply :: "string result"
  saveReply :: "unit result"
  sendReactionClear :: "unit result"
  sendMessage :: "unit result"

record world =
  configCache :: "row config_cache"
  effects :: "effect list"

text \<open>
  An awaited call: a throw leaves the world as it is, a return records the effects
  of the call. \<open>andThen\<close> is the sequence of two awaits inside one \<open>try\<close>: a throw of
  the first skips the second.
\<close>

definition call :: "'a result \<Rightarrow> effect list \<Rightarrow> world \<Rightarrow> 'a result \<times> world" where
  "call r effs w =
     (case r of Inl e \<Rightarrow> (Inl e, w) | Inr x \<Rightarrow> (Inr x, w\<lparr>effects := effects w @ effs\<rparr>))"

definition andThen ::
  "(world \<Rightarrow> 'a result \<times> world) \<Rightarrow> ('a \<Rightarrow> world \<Rightarrow> 'b result \<times> world) \<Rightarrow> world \<Rightarrow> 'b result \<times> world" where
  "andThen m f w = (case m w of (Inl e, w') \<Rightarrow> (Inl e, w') | (Inr x, w') \<Rightarrow> f x w')"

subsection \<open>processMessageFull\<close>

text \<open>
  The first \<open>Promise.all\<close>: \<open>getCachedWhatsAppConfig(messageData.to, ...)\<close> beside a
  placeholder that resolves to \<open>null\<close>.
\<close>

definition fetchConfig :: "messageData \<Rightarrow> collaborators \<Rightarrow> world \<Rightarrow> row js result \<times> world" where
  "fetchConfig md env w =
     (let (r, c) = getCachedWhatsAppConfig (msg_to md) (getWhatsAppConfigByPhoneNumber env)
                     (configCache w)
      in (r, w\<lparr>configCache := c\<rparr>))"

text \<open>
  The second \<open>Promise.all\<close>: \<open>getCachedBusiness\<close> (the placeholder being \<open>null\<close>) and
  \<open>getCachedBusinessTone\<close>, started together. The two getters use different cache
  keys and bump counters, so their effects on the cache are those of running one after
  the other, which is how they are run here; the time each took is read off the clock.
  \<open>Promise.all\<close> rejects as soon as one of them throws: when both throw, with the error
  of the one that took less time (the business getter's, which was started first,
  when they took the same time).
\<close>

definition fetchBusinessAndTone ::
  "string \<Rightarrow> collaborators \<Rightarrow> world \<Rightarrow> (row js \<times> row js) result \<times> world" where
  "fetchBusinessAndTone bid env w =
     (let c0 = configCache w;
          (rb, c1) = getCachedBusiness bid (getBusinessById env) c0;
          (rt, c2) = getCachedBusinessTone bid (getBusinessTone env) c1;
          w' = w\<lparr>configCache := c2\<rparr>
      in case rb of
           Inl eb \<Rightarrow>
             (case rt of
                Inl et \<Rightarrow> (if now c2 - now c1 < now c1 - now c0 then Inl et else Inl eb, w')
              | Inr businessTone \<Rightarrow> (Inl eb, w'))
         | Inr businessData \<Rightarrow>
             (case rt of
                Inl et \<Rightarrow> (Inl et, w')
              | Inr businessTone \<Rightarrow> (Inr (businessData, businessTone), w')))"

text \<open>
  The rest of the \<open>try\<close> block, for an active business: \<open>setBusinessConfig\<close>; the read
  receipt and the hourglass reaction, started and not awaited (a failure is printed);
  \<open>createOrGetConversation\<close>; \<open>saveMessage\<close> for the incoming message; the reply;
  \<open>saveMessage\<close> for the reply; the reaction is cleared; \<open>sendMessage\<close>.
\<close>

definition reply :: "messageData \<Rightarrow> string \<Rightarrow> collaborators \<Rightarrow> world \<Rightarrow> unit result \<times> world" where
  "reply md bid env w =
     (let w1 = w\<lparr>effects := effects w @ [ConfigSet]\<rparr>;
          w2 = snd (call (markMessageAsRead env) [ReadMarked (messageId md)] w1);
          w3 = snd (call (sendReactionTyping env)
                      [Reaction (msg_from md) (messageId md) ''hourglass''] w2)
      in andThen (call (createOrGetConversation env) [ConversationOpened bid (msg_from md)])
           (\<lambda>conversation.
              andThen (call (saveUserMessage env) [MessageSaved (messageId md) True])
                (\<lambda>savedMessage.
                   andThen (call (buildReply env) [])
                     (\<lambda>aiResponse.
                        andThen (call (saveReply env) [MessageSaved (messageId md) False])
                          (\<lambda>_.
                             andThen (call (sendReactionClear env)
                                        [Reaction (msg_from md) (messageId md) []])
                               (\<lambda>_. call (sendMessage env)
                                        [MessageSent (msg_from md) aiResponse])))))
           w3)"

text \<open>
  \<open>processMessageFull\<close>: a throw anywhere in the \<open>try\<close> block is printed and thrown
  again; the three early \<open>return\<close>s resolve the promise with \<open>undefined\<close>.
\<close>

definition processMessageFull ::
  "messageData \<Rightarrow> collaborators \<Rightarrow> world \<Rightarrow> unit result \<times> world" where
  "processMessageFull md env w =
     (case fetchConfig md env w of
        (Inl e, w1) \<Rightarrow> (Inl e, w1)
      | (Inr whatsappConfig, w1) \<Rightarrow>
          if \<not> truthy whatsappConfig then (Inr (), w1)
          else
            (let bid = render (field ''business_id'' whatsappConfig)
             in case fetchBusinessAndTone bid env w1 of
                  (Inl e, w2) \<Rightarrow> (Inl e, w2)
                | (Inr (businessData, businessTone), w2) \<Rightarrow>
                    if \<not> truthy businessData then (Inr (), w2)
                    else if field ''status'' businessData = Some ''inactive'' then (Inr (), w2)
                    else reply md bid env w2))"

section \<open>Observations and concrete schedules\<close>

text \<open>How often the \<open>finally\<close> block of task \<open>n\<close> has called \<open>markAsCompleted\<close>.\<close>

definition completions :: "nat \<Rightarrow> processor \<Rightarrow> nat" where
  "completions n s = count_list (trace s) (Completed n)"

text \<open>The phase of task \<open>n\<close>, when there is such a task.\<close>

definition phase_of :: "processor \<Rightarrow> nat \<Rightarrow> phase option" where
  "phase_of s n = (if n < length (tasks s) then Some (phase (tasks s ! n)) else None)"

text \<open>
  Every task has been completed once if it is finished and not at all otherwise.
\<close>

definition completed_once :: "processor \<Rightarrow> bool" where
  "completed_once s =
     (\<forall>n. completions n s = (if phase_of s n = Some Finished then 1 else 0))"

text \<open>
  A task is active from the start of its pipeline until its \<open>finally\<close> block.
\<close>

definition active :: "phase \<Rightarrow> bool" where
  "active p = (case p of Running \<Rightarrow> True | Logging _ \<Rightarrow> True | Notifying \<Rightarrow> True | _ \<Rightarrow> False)"

text \<open>The events of task \<open>n\<close>'s own awaited calls.\<close>

fun own_event :: "nat \<Rightarrow> event \<Rightarrow> bool" where
  "own_event n (Settle m r) = (m = n)"
| "own_event n (LogDone m fault) = (m = n)"
| "own_event n (NotifyDone m q) = (m = n)"
| "own_event n _ = False"

text \<open>
  Four messages of one sender to one number, hence of one conversation
  (\<open>businessId\<close> is not set by the webhook, the key is \<open>unknown:5215500000001\<close>).
\<close>

definition msgA :: messageData where
  "msgA = \<lparr>messageId = ''wamid.A'', msg_from = ''5215500000001'', msg_to = ''15550001'',
           businessId = None, messageType = ''text'', content = ''Transfer $100 to John''\<rparr>"

definition msgB :: messageData where
  "msgB = \<lparr>messageId = ''wamid.B'', msg_from = ''5215500000001'', msg_to = ''15550001'',
           businessId = None, messageType = ''text'', content = ''Cancel that''\<rparr>"

definition msgC :: messageData where
  "msgC = \<lparr>messageId = ''wamid.C'', msg_from = ''5215500000001'', msg_to = ''15550001'',
           businessId = None, messageType = ''text'', content = ''Thanks''\<rparr>"

definition msgD :: messageData where
  "msgD = \<lparr>messageId = ''wamid.D'', msg_from = ''5215500000001'', msg_to = ''15550001'',
           businessId = None, messageType = ''text'', content = ''Balance?''\<rparr>"

text \<open>
  A, B and C are delivered, checked (no row in the database), accepted and their
  callbacks run while the pipeline of A is still running; then the pipeline of A
  settles.
\<close>

definition three_in_a_row :: "event list" where
  "three_in_a_row =
     [Webhook msgA, QueryDone 0 (Inr 0), Immediate,
      Webhook msgB, QueryDone 1 (Inr 0), Immediate,
      Webhook msgC, QueryDone 2 (Inr 0), Immediate,
      Settle 0 (Inr ())]"

text \<open>
  After that the pipeline of B settles, and D is delivered, checked, accepted and
  its callback runs.
\<close>

definition then_a_fourth :: "event list" where
  "then_a_fourth =
     three_in_a_row @ [Settle 1 (Inr ()), Webhook msgD, QueryDone 3 (Inr 0), Immediate]"

text \<open>
  The same message is delivered twice; the second delivery arrives while the query
  of the first is under way. Neither query finds a row. Both callbacks run and both
  pipelines settle.
\<close>

definition delivered_twice :: "event list" where
  "delivered_twice =
     [Webhook msgA, Webhook msgA, QueryDone 0 (Inr 0), QueryDone 1 (Inr 0),
      Immediate, Immediate, Settle 0 (Inr ()), Settle 1 (Inr ())]"

text \<open>
  A is accepted at time 0 and its pipeline settles at once without a row being saved
  (the business is inactive); A is delivered again at 100 s, is found neither in the
  set nor in the database, is accepted again, and its pipeline is started.
\<close>

definition accepted_again :: "event list" where
  "accepted_again =
     [Webhook msgA, QueryDone 0 (Inr 0), Immediate, Settle 0 (Inr ()),
      Advance 100000, Webhook msgA, QueryDone 1 (Inr 0), Immediate]"

text \<open>A pipeline that throws, an error record that cannot be written, an apology that cannot be sent.\<close>

definition boom :: error where
  "boom = Error (Some ''OpenAI request timed out'') (Some ''at generateResponse'')"

definition all_fails :: "event list" where
  "all_fails =
     [Webhook msgA, QueryDone 0 (Inr 0), Immediate, Settle 0 (Inl boom),
      LogDone 0 (Some lost), NotifyDone 0 (Inl lost)]"

text \<open>
  Collaborators for the number 15550001: its configuration names business 7, whose
  row says \<open>inactive\<close>; every other call would succeed.
\<close>

definition inactive_business :: collaborators where
  "inactive_business =
     \<lparr>getWhatsAppConfigByPhoneNumber = (\<lambda>a n. (Inr (Obj [''business_id'' \<mapsto> ''7'']), 20)),
      getBusinessById = (\<lambda>a n. (Inr (Obj [''name'' \<mapsto> ''Acme'', ''status'' \<mapsto> ''inactive'']), 20)),
      getBusinessTone = (\<lambda>a n. (Inr Null, 20)),
      markMessageAsRead = Inr (), sendReactionTyping = Inr (),
      createOrGetConversation = Inr ''31'', saveUserMessage = Inr (),
      buildReply = Inr ''Hello'', saveReply = Inr (), sendReactionClear = Inr (),
      sendMessage = Inr ()\<rparr>"

text \<open>The same with an active business.\<close>

definition active_business :: collaborators where
  "active_business =
     inactive_business\<lparr>getBusinessById :=
       (\<lambda>a n. (Inr (Obj [''name'' \<mapsto> ''Acme'', ''status'' \<mapsto> ''active'']), 20))\<rparr>"

text \<open>
  The business is inactive as before, and the lookup of its tone throws each time.
\<close>

definition tone_fails :: collaborators where
  "tone_fails = inactive_business\<lparr>getBusinessTone := (\<lambda>a n. (Inl lost, 20))\<rparr>"

definition initial_world :: world where
  "initial_world = \<lparr>configCache = initial_cache, effects = []\<rparr>"

text \<open>A is accepted and its pipeline has been started.\<close>

definition a_running :: "event list" where
  "a_running = [Webhook msgA, QueryDone 0 (Inr 0), Immediate]"

text \<open>
  A is running; its pipeline throws the error of the tone lookup; the error record is
  written and the apology is sent.
\<close>

definition a_throws :: "event list" where
  "a_throws = a_running @ [Settle 0 (Inl lost), LogDone 0 None, NotifyDone 0 (Inr ())]"

section \<open>Properties of the configuration cache\<close>

subsection \<open>What one call of a getter does\<close>

lemma getters_body:
  "(g, k) \<in> set (getters a) \<Longrightarrow> g = getCachedBody k a"
  by (auto simp: getters_def getCachedWhatsAppConfig_def getCachedBusiness_def
      getCachedBusinessTone_def)

lemma not_live_get:
  "\<not> live k s \<Longrightarrow> fst (cache_get k s) = Undefined"
  by (simp add: live_def)

lemma get_fields [simp]:
  "hits (snd (cache_get k s)) = hits s"
  "misses (snd (cache_get k s)) = misses s"
  "errors (snd (cache_get k s)) = errors s"
  "now (snd (cache_get k s)) = now s"
  "fetchCalls (snd (cache_get k s)) = fetchCalls s"
  by (auto simp: cache_get_def split: option.splits)

lemma get_not_live_after:
  "\<not> live k s \<Longrightarrow> \<not> live k (snd (cache_get k s))"
  by (auto simp: live_def cache_get_def split: option.splits if_splits)

lemma live_get:
  "live k s \<Longrightarrow> cache_get k s = (fst (cache_get k s), s)"
  by (auto simp: live_def cache_get_def split: option.splits if_splits)

lemma live_upd [simp]:
  "live k (s\<lparr>misses := m\<rparr>) = live k s"
  "live k (s\<lparr>hits := h\<rparr>) = live k s"
  "live k (s\<lparr>errors := e\<rparr>) = live k s"
  "live k (s\<lparr>fetchCalls := c\<rparr>) = live k s"
  by (auto simp: live_def cache_get_def split: option.splits)

lemma body_miss_throw:
  assumes "\<not> live k s" and "fst (f a (fetchCalls s)) = Inl e"
  shows "getCachedBody k a f s =
     (fst (f a (fetchCalls s + 1)),
      (snd (cache_get k s))\<lparr>misses := misses s + 1, 
        now := now s + snd (f a (fetchCalls s)), fetchCalls := fetchCalls s + 1, errors := errors s + 1,
        now := now s + snd (f a (fetchCalls s)) + snd (f a (fetchCalls s + 1)),
        fetchCalls := fetchCalls s + 2\<rparr>)"
  using assms not_live_get[OF assms(1)]
  by (simp add: getCachedBody_def await_fetch_def split_beta Let_def)

lemma body_miss_return:
  assumes "\<not> live k s" and "fst (f a (fetchCalls s)) = Inr v"
  shows "getCachedBody k a f s =
     (Inr v,
      (if truthy v then cache_set k v else id)
       ((snd (cache_get k s))\<lparr>misses := misses s + 1,
        now := now s + snd (f a (fetchCalls s)),
        fetchCalls := fetchCalls s + 1\<rparr>))"
  using assms not_live_get[OF assms(1)]
  by (simp add: getCachedBody_def await_fetch_def split_beta Let_def)

lemma body_hit:
  assumes "live k s"
  shows "getCachedBody k a f s = (Inr (fst (cache_get k s)), s\<lparr>hits := hits s + 1\<rparr>)"
  using live_get[OF assms] assms
  by (auto simp add: getCachedBody_def live_def split: prod.splits)

lemma live_after_set:
  "t \<le> now s + stdTTL \<Longrightarrow> v \<noteq> Undefined \<Longrightarrow>
   cache_get k ((cache_set k v s)\<lparr>now := t\<rparr>) = (v, (cache_set k v s)\<lparr>now := t\<rparr>)"
  by (auto simp: cache_get_def cache_set_def)

lemma not_live_time:
  "\<not> live k s \<Longrightarrow> cache s k = None \<or> fst (the (cache s k)) = Undefined \<or> snd (the (cache s k)) < now s"
  by (auto simp: live_def cache_get_def split: option.splits if_splits)

lemma dead_not_live: "dead k s \<Longrightarrow> \<not> live k (s\<lparr>now := t\<rparr>)"
  by (auto simp: dead_def live_def cache_get_def split: option.splits)

lemma get_dead: "\<not> live k s \<Longrightarrow> dead k (snd (cache_get k s))"
  by (auto simp: dead_def live_def cache_get_def split: option.splits if_splits)

lemma dead_upd [simp]:
  "dead k (s\<lparr>misses := m\<rparr>) = dead k s"
  "dead k (s\<lparr>hits := h\<rparr>) = dead k s"
  "dead k (s\<lparr>errors := e\<rparr>) = dead k s"
  "dead k (s\<lparr>fetchCalls := c\<rparr>) = dead k s"
  "dead k (s\<lparr>now := t\<rparr>) = dead k s"
  by (auto simp: dead_def)

lemma body_calls_on_miss:
  assumes "\<not> live k s"
  shows "fetchCalls s < fetchCalls (snd (getCachedBody k a f s))"
proof (cases "fst (f a (fetchCalls s))")
  case (Inl e)
  show ?thesis using body_miss_throw[where f=f and a=a, OF assms Inl] by simp
next
  case (Inr v)
  show ?thesis using body_miss_return[where f=f and a=a, OF assms Inr] by (simp add: cache_set_def)
qed

lemma body_counters:
  "hits (snd (getCachedBody k a f s)) = (if live k s then hits s + 1 else hits s)"
  "misses (snd (getCachedBody k a f s)) = (if live k s then misses s else misses s + 1)"
proof -
  show "hits (snd (getCachedBody k a f s)) = (if live k s then hits s + 1 else hits s)"
  proof (cases "live k s")
    case True then show ?thesis by (simp add: body_hit)
  next
    case False
    then show ?thesis
      by (cases "fst (f a (fetchCalls s))")
        (simp_all add: body_miss_throw[where f=f and a=a] body_miss_return[where f=f and a=a] cache_set_def)
  qed
  show "misses (snd (getCachedBody k a f s)) = (if live k s then misses s else misses s + 1)"
  proof (cases "live k s")
    case True then show ?thesis by (simp add: body_hit)
  next
    case False
    then show ?thesis
      by (cases "fst (f a (fetchCalls s))")
        (simp_all add: body_miss_throw[where f=f and a=a] body_miss_return[where f=f and a=a] cache_set_def)
  qed
qed

lemma live_after_load:
  assumes "t \<le> now s + stdTTL"
  shows "live k ((cache_set k (Obj v) s)\<lparr>now := t, hits := h\<rparr>)"
    and "fst (cache_get k ((cache_set k (Obj v) s)\<lparr>now := t, hits := h\<rparr>)) = Obj v"
  using assms by (auto simp: live_def cache_get_def cache_set_def)

text \<open>
  The body of a getter is the call run from its start through its two suspension
  points with no other call in between.
\<close>

lemma alone_is_body:
  "getCached_alone k a f s = (Returned (fst (getCachedBody k a f s)), snd (getCachedBody k a f s))"
  by (auto simp: getCached_alone_def getCached_begin_def getCached_resume_def getCachedBody_def
      await_fetch_def Let_def split_beta cache_set_def split: sum.splits)

lemma initial_not_live: "\<not> live k initial_cache"
  by (simp add: live_def cache_get_def initial_cache_def)


subsection \<open>A loader that throws on a miss\<close>

text \<open>
  C4, as claimed: when the loader throws on a miss, the loader's error is propagated
  to the caller. The code does not do that: its \<open>catch\<close> block invokes the loader a
  second time and returns what that invocation gives. With a loader whose first
  invocation throws and whose second finds the row, the caller gets the row and no
  error.
\<close>

theorem C4_counterexample:
  "\<not> live (''whatsapp_config:'' @ ''15550001'') (initial_cache :: nat config_cache)
   \<and> fst (flaky ''15550001'' (fetchCalls (initial_cache :: nat config_cache))) = Inl lost
   \<and> fst (getCachedWhatsAppConfig ''15550001'' flaky initial_cache) = Inr (Obj 7)"
  by (simp add: live_def cache_get_def initial_cache_def flaky_def getCachedWhatsAppConfig_def
      getCachedBody_def await_fetch_def)


text \<open>
  C4, amended: for each of the three getters, when the key is not live and the loader
  throws, \<open>errors\<close> goes up by one, nothing is cached for the key, the loader is
  invoked a second time and the caller receives the outcome of that second
  invocation (its value, or its error), and the next call for the key, whenever it
  is made, invokes the loader again.
\<close>

theorem C4_amended:
  assumes g: "(g, k) \<in> set (getters a)"
    and miss: "\<not> live k s"
    and throw: "fst (f a (fetchCalls s)) = Inl e"
  shows "errors (snd (g f s)) = errors s + 1
       \<and> \<not> live k (snd (g f s))
       \<and> fst (g f s) = fst (f a (fetchCalls s + 1))
       \<and> fetchCalls (snd (g f s)) = fetchCalls s + 2
       \<and> (\<forall>t. fetchCalls (snd (g f s)) < fetchCalls (snd (g f ((snd (g f s))\<lparr>now := t\<rparr>))))"
proof -
  have b: "g = getCachedBody k a" using g by (rule getters_body)
  note r = body_miss_throw[where f=f and a=a, OF miss throw]
  have d: "dead k (snd (g f s))"
    unfolding b r using get_dead[OF miss] by simp
  have nl: "\<not> live k (snd (g f s))"
    using dead_not_live[OF d, of "now (snd (g f s))"] by simp
  have again: "fetchCalls (snd (g f s)) < fetchCalls (snd (g f ((snd (g f s))\<lparr>now := t\<rparr>)))" for t
    using body_calls_on_miss[OF dead_not_live[OF d, of t], of a f] unfolding b by simp
  show ?thesis using nl again unfolding b r by simp
qed


theorem C4_amended_witness:
  "errors (snd (getCachedBusiness ''42'' flaky initial_cache)) = 1
   \<and> \<not> live (''business:'' @ ''42'') (snd (getCachedBusiness ''42'' flaky initial_cache))
   \<and> fst (getCachedBusiness ''42'' flaky initial_cache) = Inr (Obj 7)
   \<and> fetchCalls (snd (getCachedBusiness ''42'' flaky initial_cache)) = 2"
proof -
  have g: "(getCachedBusiness ''42'', ''business:'' @ ''42'') \<in> set (getters ''42'')"
    by (simp add: getters_def)
  have t: "fst (flaky ''42'' (fetchCalls (initial_cache :: nat config_cache))) = Inl lost"
    by (simp add: flaky_def initial_cache_def)
  show ?thesis
    using C4_amended[OF g initial_not_live, where f=flaky, OF t]
    by (simp add: initial_cache_def flaky_def)
qed


subsection \<open>Three calls within the time to live\<close>

text \<open>
  C5, as claimed: after a first call whose loader succeeds, two more calls within the
  time to live do not invoke the loader. That fails in two ways. A loader that
  succeeds with \<open>null\<close> (no row found) is not stored, because of the guard
  \<open>if (config)\<close>, so each of three calls made one after the other invokes it. And a
  getter is suspended between \<open>cache.get\<close> and \<open>cache.set\<close>: three calls that are started
  before the first load has completed all miss, and the loader, although it finds the
  row each time, is invoked three times.
\<close>

theorem C5_counterexample:
  "\<not> live (''whatsapp_config:'' @ ''15550001'') (initial_cache :: nat config_cache)
   \<and> fst (absent ''15550001'' (fetchCalls (initial_cache :: nat config_cache))) = Inr Null
   \<and> fetchCalls (snd (getCachedWhatsAppConfig ''15550001'' absent
        (snd (getCachedWhatsAppConfig ''15550001'' absent
          (snd (getCachedWhatsAppConfig ''15550001'' absent initial_cache)))))) = 3
   \<and> fst three_started =
        (AwaitingFetch (''whatsapp_config:'' @ ''15550001'') ''15550001'' 0 0,
         AwaitingFetch (''whatsapp_config:'' @ ''15550001'') ''15550001'' 1 0,
         AwaitingFetch (''whatsapp_config:'' @ ''15550001'') ''15550001'' 2 0)
   \<and> fst three_overlapping =
        (Returned (Inr (Obj 7)), Returned (Inr (Obj 7)), Returned (Inr (Obj 7)))
   \<and> fetchCalls (snd three_overlapping) = 3
   \<and> now (snd three_overlapping) = 20"
  by (simp add: live_def cache_get_def initial_cache_def absent_def getCachedWhatsAppConfig_def
      getCachedBody_def await_fetch_def three_overlapping_def three_started_def
      getCached_begin_def getCached_resume_def cache_set_def steady_def Let_def)

text \<open>
  C5, amended: for each of the three getters and a key that is not live, let three
  calls be made one after the other: the second at \<open>t2\<close>, not before the first has
  returned, the third at \<open>t3\<close>, not before the second, and none later than the entry's
  expiry (the time of the store plus \<open>stdTTL\<close>). When the
  loader's first invocation returns a truthy value (an object), the three calls all
  return that value, the loader has been invoked exactly once, and one miss and two
  hits have been counted. Any such call counts one hit when the key is live and one
  miss when it is not, and it is the call run from its start through its suspension
  points with no other call in between.
\<close>

theorem C5_amended:
  assumes g: "(g, k) \<in> set (getters a)"
    and miss: "\<not> live k s"
    and ok: "fst (f a (fetchCalls s)) = Inr (Obj v)"
    and s1: "s1 = snd (g f s)"
    and s2: "s2 = snd (g f (s1\<lparr>now := t2\<rparr>))"
    and s3: "s3 = snd (g f (s2\<lparr>now := t3\<rparr>))"
    and after1: "now s1 \<le> t2"
    and after2: "t2 \<le> t3"
    and t3: "t3 \<le> now s1 + stdTTL"
  shows "fst (g f s) = Inr (Obj v)
       \<and> fst (g f (s1\<lparr>now := t2\<rparr>)) = Inr (Obj v)
       \<and> fst (g f (s2\<lparr>now := t3\<rparr>)) = Inr (Obj v)
       \<and> fetchCalls s3 = fetchCalls s + 1
       \<and> misses s3 = misses s + 1
       \<and> hits s3 = hits s + 2
       \<and> (\<forall>u. hits (snd (g f u)) = (if live k u then hits u + 1 else hits u))
       \<and> (\<forall>u. misses (snd (g f u)) = (if live k u then misses u else misses u + 1))
       \<and> (\<forall>u. getCached_alone k a f u = (Returned (fst (g f u)), snd (g f u)))"
proof -
  have b: "g = getCachedBody k a" using g by (rule getters_body)
  note r = body_miss_return[where f=f and a=a, OF miss ok]
  define s0 where "s0 = (snd (cache_get k s))\<lparr>misses := misses s + 1,
        now := now s + snd (f a (fetchCalls s)), fetchCalls := fetchCalls s + 1\<rparr>"
  have e1: "s1 = cache_set k (Obj v) s0" unfolding s1 b r s0_def by simp
  have n1: "now s1 = now s0" unfolding e1 by (simp add: cache_set_def)
  have t2: "t2 \<le> now s1 + stdTTL" using after2 t3 by simp
  have l2: "live k (s1\<lparr>now := t2\<rparr>)"
    using t2 unfolding n1 unfolding e1 by (auto simp: live_def cache_get_def cache_set_def)
  have e2: "s2 = s1\<lparr>now := t2, hits := hits s1 + 1\<rparr>"
    unfolding s2 b using body_hit[OF l2] by simp
  have v2: "fst (cache_get k (s1\<lparr>now := t2\<rparr>)) = Obj v"
    using t2 unfolding n1 unfolding e1 by (auto simp: live_def cache_get_def cache_set_def)
  have l3: "live k (s2\<lparr>now := t3\<rparr>)"
    using t3 unfolding n1 unfolding e2 e1 by (auto simp: live_def cache_get_def cache_set_def)
  have v3: "fst (cache_get k (s2\<lparr>now := t3\<rparr>)) = Obj v"
    using t3 unfolding n1 unfolding e2 e1 by (auto simp: live_def cache_get_def cache_set_def)
  have e3: "s3 = s2\<lparr>now := t3, hits := hits s2 + 1\<rparr>"
    unfolding s3 b using body_hit[OF l3] by simp
  have c: "fetchCalls s3 = fetchCalls s + 1 \<and> misses s3 = misses s + 1 \<and> hits s3 = hits s + 2"
    unfolding e3 e2 e1 s0_def by (simp add: cache_set_def)
  have r1: "fst (g f s) = Inr (Obj v)" unfolding b r by simp
  have r2: "fst (g f (s1\<lparr>now := t2\<rparr>)) = Inr (Obj v)" unfolding b using body_hit[OF l2] v2 by simp
  have r3: "fst (g f (s2\<lparr>now := t3\<rparr>)) = Inr (Obj v)" unfolding b using body_hit[OF l3] v3 by simp
  have h: "hits (snd (g f u)) = (if live k u then hits u + 1 else hits u)"
    "misses (snd (g f u)) = (if live k u then misses u else misses u + 1)" for u
    unfolding b by (rule body_counters)+
  have al: "getCached_alone k a f u = (Returned (fst (g f u)), snd (g f u))" for u
    unfolding b by (rule alone_is_body)
  show ?thesis using r1 r2 r3 c h al by simp
qed

theorem C5_amended_witness:
  "fst (getCachedWhatsAppConfig ''15550001'' steady initial_cache) = Inr (Obj 7)
   \<and> fetchCalls (snd (getCachedWhatsAppConfig ''15550001'' steady
        ((snd (getCachedWhatsAppConfig ''15550001'' steady
          ((snd (getCachedWhatsAppConfig ''15550001'' steady initial_cache))
             \<lparr>now := 1000\<rparr>)))\<lparr>now := 300020\<rparr>))) = 1"
proof -
  have g: "(getCachedWhatsAppConfig ''15550001'', ''whatsapp_config:'' @ ''15550001'')
      \<in> set (getters ''15550001'')"
    by (simp add: getters_def)
  have ok: "fst (steady ''15550001'' (fetchCalls (initial_cache :: nat config_cache))) = Inr (Obj 7)"
    by (simp add: steady_def)
  define s1 where "s1 = snd (getCachedWhatsAppConfig ''15550001'' steady initial_cache)"
  have n1: "now s1 = 20"
    unfolding s1_def
    by (simp add: getCachedWhatsAppConfig_def getCachedBody_def cache_get_def initial_cache_def
        await_fetch_def steady_def cache_set_def)
  have a1: "now s1 \<le> 1000" and a2: "(1000::nat) \<le> 300020"
    and t3: "300020 \<le> now s1 + stdTTL"
    unfolding n1 by (simp_all add: stdTTL_def)
  show ?thesis
    using C5_amended[OF g initial_not_live, where f=steady, OF ok s1_def refl refl a1 a2 t3]
    by (simp add: initial_cache_def s1_def)
qed

section \<open>Properties of the message processor\<close>

subsection \<open>Running the event loop\<close>

lemmas machine_defs = run_def webhook_def queryDone_def immediate_def settle_def logDone_def notifyDone_def
  advance_def isMessageProcessed_begin_def isMessageProcessed_end_def webhook_resume_def
  processInBackground_def markAsProcessing_def markAsCompleted_def processWithLock_enter_def
  processWithLock_exit_def start_def set_phase_def key_of_def settled_def finish_def
  processInBackground_resume_def processInBackground_logged_def processInBackground_notified_def
  waiters_def conversationKey_def orElse_def initial_processor_def logProcessingError_def
  sendErrorNotification_def upsert_error_def due_def

lemma run_Nil [simp]: "run [] s = s" by (simp add: run_def)
lemma run_Cons [simp]: "run (e # evs) s = run evs (step e s)" by (simp add: run_def)
lemma run_append: "run (xs @ ys) s = run ys (run xs s)" by (simp add: run_def)

subsection \<open>What the building blocks change\<close>

lemma set_phase_other [simp]:
  "trace (set_phase n p s) = trace s"
  "processingMessages (set_phase n p s) = processingMessages s"
  "conversationLocks (set_phase n p s) = conversationLocks s"
  "processed (set_phase n p s) = processed s"
  "failures (set_phase n p s) = failures s"
  "duplicates (set_phase n p s) = duplicates s"
  "timers (set_phase n p s) = timers s"
  "clock (set_phase n p s) = clock s"
  "requests (set_phase n p s) = requests s"
  "processing_errors (set_phase n p s) = processing_errors s"
  "notified (set_phase n p s) = notified s"
  "console (set_phase n p s) = console s"
  by (simp_all add: set_phase_def)

lemma phase_of_set_phase:
  "phase_of (set_phase n p s) m = (if m = n \<and> n < length (tasks s) then Some p else phase_of s m)"
  by (auto simp: phase_of_def set_phase_def)

lemma data_set_phase [simp]:
  "data (tasks (set_phase n p s) ! m) = data (tasks s ! m)"
  by (cases "n < length (tasks s)"; cases "m = n") (simp_all add: set_phase_def list_update_beyond)

lemma length_set_phase [simp]: "length (tasks (set_phase n p s)) = length (tasks s)"
  by (simp add: set_phase_def)

lemma start_other [simp]:
  "processingMessages (start n s) = processingMessages s"
  "processed (start n s) = processed s"
  "failures (start n s) = failures s"
  "duplicates (start n s) = duplicates s"
  "timers (start n s) = timers s"
  "clock (start n s) = clock s"
  "requests (start n s) = requests s"
  "processing_errors (start n s) = processing_errors s"
  "notified (start n s) = notified s"
  "console (start n s) = console s"
  "trace (start n s) = trace s @ [Started n]"
  "length (tasks (start n s)) = length (tasks s)"
  "data (tasks (start n s) ! m) = data (tasks s ! m)"
  by (simp_all add: start_def)

lemma phase_of_start:
  "phase_of (start n s) m = (if m = n \<and> n < length (tasks s) then Some Running else phase_of s m)"
  by (auto simp: phase_of_def start_def set_phase_def)

lemma fold_start_other [simp]:
  "processingMessages (fold start ws s) = processingMessages s"
  "processed (fold start ws s) = processed s"
  "failures (fold start ws s) = failures s"
  "duplicates (fold start ws s) = duplicates s"
  "timers (fold start ws s) = timers s"
  "clock (fold start ws s) = clock s"
  "requests (fold start ws s) = requests s"
  "processing_errors (fold start ws s) = processing_errors s"
  "notified (fold start ws s) = notified s"
  "console (fold start ws s) = console s"
  "trace (fold start ws s) = trace s @ map Started ws"
  "length (tasks (fold start ws s)) = length (tasks s)"
  "data (tasks (fold start ws s) ! m) = data (tasks s ! m)"
  by (induction ws arbitrary: s; simp)+

lemma phase_of_fold_start:
  "phase_of (fold start ws s) m =
     (if m \<in> set ws \<and> m < length (tasks s) then Some Running else phase_of s m)"
proof (induction ws arbitrary: s)
  case Nil
  show ?case by simp
next
  case (Cons a ws)
  show ?case
    by (simp add: Cons phase_of_start) (auto simp: phase_of_def)
qed

lemma completions_simps [simp]:
  "completions n (s\<lparr>trace := tr\<rparr>) = count_list tr (Completed n)"
  by (simp add: completions_def)

lemma count_Started [simp]: "count_list (map Started ws) (Completed n) = 0"
  by (induction ws) auto


lemma completions_start [simp]: "completions m (start n s) = completions m s"
  by (simp add: completions_def)

lemma completions_set_phase [simp]: "completions m (set_phase n p s) = completions m s"
  by (simp add: completions_def)

lemma completions_fold_start [simp]: "completions m (fold start ws s) = completions m s"
  by (simp add: completions_def)

lemma finish_other [simp]:
  "processed (finish n s) = processed s"
  "failures (finish n s) = failures s"
  "duplicates (finish n s) = duplicates s"
  "timers (finish n s) = timers s"
  "clock (finish n s) = clock s"
  "requests (finish n s) = requests s"
  "processing_errors (finish n s) = processing_errors s"
  "notified (finish n s) = notified s"
  "console (finish n s) = console s"
  "conversationLocks (finish n s) = conversationLocks s"
  "trace (finish n s) = trace s @ [Completed n]"
  "length (tasks (finish n s)) = length (tasks s)"
  "processingMessages (finish n s) = processingMessages s - {messageId (data (tasks s ! n))}"
  by (simp_all add: finish_def markAsCompleted_def)

lemma phase_of_finish:
  "phase_of (finish n s) m = (if m = n \<and> n < length (tasks s) then Some Finished else phase_of s m)"
  by (auto simp: phase_of_def finish_def set_phase_def markAsCompleted_def)

lemma completions_finish:
  "completions m (finish n s) = completions m s + (if m = n then 1 else 0)"
  by (simp add: completions_def)

lemma phase_of_upd [simp]:
  "phase_of (s\<lparr>trace := tr\<rparr>) m = phase_of s m"
  "phase_of (s\<lparr>console := c\<rparr>) m = phase_of s m"
  "phase_of (s\<lparr>notified := nt\<rparr>) m = phase_of s m"
  "phase_of (s\<lparr>processing_errors := pe\<rparr>) m = phase_of s m"
  "phase_of (s\<lparr>conversationLocks := cl\<rparr>) m = phase_of s m"
  "phase_of (s\<lparr>processed := pr\<rparr>) m = phase_of s m"
  "phase_of (s\<lparr>failures := fl\<rparr>) m = phase_of s m"
  "phase_of (s\<lparr>duplicates := du\<rparr>) m = phase_of s m"
  "phase_of (s\<lparr>requests := rq\<rparr>) m = phase_of s m"
  "phase_of (s\<lparr>processingMessages := pm\<rparr>) m = phase_of s m"
  "phase_of (s\<lparr>timers := tm\<rparr>) m = phase_of s m"
  "phase_of (s\<lparr>clock := ck\<rparr>) m = phase_of s m"
  by (simp_all add: phase_of_def)

lemma completions_upd [simp]:
  "completions m (s\<lparr>console := c\<rparr>) = completions m s"
  "completions m (s\<lparr>notified := nt\<rparr>) = completions m s"
  "completions m (s\<lparr>processing_errors := pe\<rparr>) = completions m s"
  "completions m (s\<lparr>conversationLocks := cl\<rparr>) = completions m s"
  "completions m (s\<lparr>processed := pr\<rparr>) = completions m s"
  "completions m (s\<lparr>failures := fl\<rparr>) = completions m s"
  "completions m (s\<lparr>duplicates := du\<rparr>) = completions m s"
  "completions m (s\<lparr>requests := rq\<rparr>) = completions m s"
  "completions m (s\<lparr>processingMessages := pm\<rparr>) = completions m s"
  "completions m (s\<lparr>timers := tm\<rparr>) = completions m s"
  "completions m (s\<lparr>clock := ck\<rparr>) = completions m s"
  "completions m (s\<lparr>tasks := ts\<rparr>) = completions m s"
  by (simp_all add: completions_def)

lemma waiters_set: "w \<in> set (waiters s p) \<longleftrightarrow> phase_of s w = Some (Waiting p)"
  by (auto simp: waiters_def phase_of_def)

lemma phase_of_SomeD: "phase_of s n = Some p \<Longrightarrow> n < length (tasks s) \<and> phase (tasks s ! n) = p"
  by (auto simp: phase_of_def split: if_splits)

lemma phase_of_settle:
  assumes "phase_of s n = Some Running"
  shows "phase_of (settle n r s) m =
     (if m = n then Some (case r of Inr _ \<Rightarrow> Finished | Inl e \<Rightarrow> Logging e)
      else if phase_of s m = Some (Waiting n) then Some Running else phase_of s m)"
  using phase_of_SomeD[OF assms]
  by (auto simp: settle_def Let_def processInBackground_resume_def processWithLock_exit_def
      phase_of_finish phase_of_set_phase phase_of_fold_start waiters_set split: sum.splits
      dest: phase_of_SomeD)

lemma completions_settle:
  assumes "phase_of s n = Some Running"
  shows "completions m (settle n r s) =
     completions m s + (if m = n \<and> \<not> isl r then 1 else 0)"
  using phase_of_SomeD[OF assms]
  by (auto simp: settle_def Let_def processInBackground_resume_def processWithLock_exit_def
      completions_finish split: sum.splits) (simp_all add: completions_def)

lemma settle_disabled: "phase_of s n \<noteq> Some Running \<Longrightarrow> settle n r s = s"
  by (auto simp: settle_def phase_of_def)


lemma phase_of_logDone:
  assumes "phase_of s n = Some (Logging e)"
  shows "phase_of (logDone n fault s) m = (if m = n then Some Notifying else phase_of s m)"
  using phase_of_SomeD[OF assms]
  by (auto simp: logDone_def logProcessingError_def processInBackground_logged_def
      phase_of_set_phase split: option.splits)

lemma logDone_disabled:
  "(\<forall>e. phase_of s n \<noteq> Some (Logging e)) \<Longrightarrow> logDone n fault s = s"
  by (auto simp: logDone_def phase_of_def split: phase.splits)

lemma completions_logDone [simp]: "completions m (logDone n fault s) = completions m s"
  by (auto simp: logDone_def logProcessingError_def processInBackground_logged_def
      split: option.splits phase.splits)

lemma phase_of_notifyDone:
  assumes "phase_of s n = Some Notifying"
  shows "phase_of (notifyDone n q s) m = (if m = n then Some Finished else phase_of s m)"
  using phase_of_SomeD[OF assms]
  by (auto simp: notifyDone_def sendErrorNotification_def processInBackground_notified_def
      phase_of_finish split: sum.splits)

lemma notifyDone_disabled: "phase_of s n \<noteq> Some Notifying \<Longrightarrow> notifyDone n q s = s"
  by (auto simp: notifyDone_def phase_of_def)

lemma completions_notifyDone:
  assumes "phase_of s n = Some Notifying"
  shows "completions m (notifyDone n q s) = completions m s + (if m = n then 1 else 0)"
  using phase_of_SomeD[OF assms]
  by (auto simp: notifyDone_def sendErrorNotification_def processInBackground_notified_def
      completions_finish split: sum.splits)

lemma phase_of_webhook_resume:
  "phase_of (webhook_resume md r s) m =
     (if r = Inr False \<and> m = length (tasks s) then Some Queued else phase_of s m)"
  by (auto simp: webhook_resume_def processInBackground_def markAsProcessing_def phase_of_def
      nth_append split: sum.splits)

lemma completions_webhook_resume [simp]:
  "completions m (webhook_resume md r s) = completions m s"
  by (auto simp: webhook_resume_def processInBackground_def markAsProcessing_def
      completions_def split: sum.splits)

lemma webhook_phase [simp]:
  "phase_of (webhook md s) m = phase_of s m"
  by (auto simp: webhook_def isMessageProcessed_begin_def phase_of_webhook_resume
      split: prod.splits option.splits if_splits)

lemma webhook_completions [simp]: "completions m (webhook md s) = completions m s"
  by (auto simp: webhook_def isMessageProcessed_begin_def split: prod.splits option.splits if_splits)

lemma queryDone_phase:
  "phase_of (queryDone h q s) m = phase_of s m \<or>
   (m = length (tasks s) \<and> phase_of s m = None \<and> phase_of (queryDone h q s) m = Some Queued)"
  by (auto simp: queryDone_def isMessageProcessed_end_def phase_of_webhook_resume Let_def
      split: prod.splits sum.splits if_splits) (simp_all add: phase_of_def)

lemma queryDone_completions [simp]: "completions m (queryDone h q s) = completions m s"
  by (auto simp: queryDone_def isMessageProcessed_end_def Let_def split: prod.splits sum.splits if_splits)

lemma find_QueuedD:
  "find (\<lambda>n. phase (tasks s ! n) = Queued) [0..<length (tasks s)] = Some n \<Longrightarrow>
   phase_of s n = Some Queued"
  by (auto simp: find_Some_iff phase_of_def)

lemma immediate_phase:
  "phase_of (immediate s) m = phase_of s m \<or>
   (phase_of s m = Some Queued \<and>
    (phase_of (immediate s) m = Some Running \<or> (\<exists>p. phase_of (immediate s) m = Some (Waiting p))))"
  by (auto simp: immediate_def processWithLock_enter_def phase_of_start phase_of_set_phase
      split: option.splits dest!: find_QueuedD)

lemma immediate_completions [simp]: "completions m (immediate s) = completions m s"
  by (auto simp: immediate_def processWithLock_enter_def split: option.splits)

lemma advance_phase [simp]: "phase_of (advance t s) m = phase_of s m"
  by (simp add: advance_def)

lemma advance_completions [simp]: "completions m (advance t s) = completions m s"
  by (simp add: advance_def)

subsection \<open>Every finished task has been completed once\<close>

lemma completed_once_step: "completed_once s \<Longrightarrow> completed_once (step e s)"
proof (cases e)
  case (Webhook md)
  assume i: "completed_once s"
  show ?thesis unfolding Webhook completed_once_def
  proof
    fix n
    show "completions n (step (Webhook md) s) =
      (if phase_of (step (Webhook md) s) n = Some Finished then 1 else 0)"
      using i[unfolded completed_once_def, rule_format, of n]
      by auto
  qed
next
  case (QueryDone h q)
  assume i: "completed_once s"
  show ?thesis unfolding QueryDone completed_once_def
  proof
    fix n
    show "completions n (step (QueryDone h q) s) =
      (if phase_of (step (QueryDone h q) s) n = Some Finished then 1 else 0)"
      using i[unfolded completed_once_def, rule_format, of n] queryDone_phase[of h q s n]
      by auto
  qed
next
  case Immediate
  assume i: "completed_once s"
  show ?thesis unfolding Immediate completed_once_def
  proof
    fix n
    show "completions n (step Immediate s) =
      (if phase_of (step Immediate s) n = Some Finished then 1 else 0)"
      using i[unfolded completed_once_def, rule_format, of n] immediate_phase[of s n]
      by auto
  qed
next
  case (Settle n r)
  assume i: "completed_once s"
  show ?thesis
  proof (cases "phase_of s n = Some Running")
    case True
    show ?thesis unfolding Settle completed_once_def
    proof
      fix m
      show "completions m (step (Settle n r) s) =
        (if phase_of (step (Settle n r) s) m = Some Finished then 1 else 0)"
        using i[unfolded completed_once_def, rule_format, of m] True
        by (cases r) (auto simp: phase_of_settle completions_settle)
    qed
  next
    case False
    then show ?thesis using i by (simp add: Settle settle_disabled)
  qed
next
  case (LogDone n fault)
  assume i: "completed_once s"
  show ?thesis
  proof (cases "\<exists>e. phase_of s n = Some (Logging e)")
    case True
    then obtain e where e: "phase_of s n = Some (Logging e)" by blast
    show ?thesis unfolding LogDone completed_once_def
    proof
      fix m
      show "completions m (step (LogDone n fault) s) =
        (if phase_of (step (LogDone n fault) s) m = Some Finished then 1 else 0)"
        using i[unfolded completed_once_def, rule_format, of m] e
        by (auto simp: phase_of_logDone[OF e])
    qed
  next
    case False
    then show ?thesis using i by (simp add: LogDone logDone_disabled)
  qed
next
  case (NotifyDone n q)
  assume i: "completed_once s"
  show ?thesis
  proof (cases "phase_of s n = Some Notifying")
    case True
    show ?thesis unfolding NotifyDone completed_once_def
    proof
      fix m
      show "completions m (step (NotifyDone n q) s) =
        (if phase_of (step (NotifyDone n q) s) m = Some Finished then 1 else 0)"
        using i[unfolded completed_once_def, rule_format, of m] True
        by (auto simp: phase_of_notifyDone completions_notifyDone)
    qed
  next
    case False
    then show ?thesis using i by (simp add: NotifyDone notifyDone_disabled)
  qed
next
  case (Advance t)
  assume "completed_once s"
  then show ?thesis by (simp add: Advance completed_once_def)
qed

lemma completed_once_initial: "completed_once initial_processor"
  by (simp add: completed_once_def completions_def phase_of_def initial_processor_def)

lemma completed_once_run: "completed_once s \<Longrightarrow> completed_once (run evs s)"
  by (induction evs arbitrary: s) (simp_all add: completed_once_step)


subsection \<open>A task only moves by its own events\<close>

lemma phase_stable:
  assumes "phase_of s n = Some p" and "active p \<or> p = Finished" and "\<not> own_event n ev"
  shows "phase_of (step ev s) n = Some p"
proof (cases ev)
  case (Webhook md)
  then show ?thesis using assms by simp
next
  case (QueryDone h q)
  then show ?thesis using assms queryDone_phase[of h q s n] by auto
next
  case Immediate
  then show ?thesis using assms immediate_phase[of s n] by (auto simp: active_def)
next
  case (Settle m r)
  with assms have mn: "m \<noteq> n" by simp
  show ?thesis
  proof (cases "phase_of s m = Some Running")
    case True
    then show ?thesis using assms mn by (auto simp: Settle phase_of_settle active_def)
  next
    case False
    then show ?thesis using assms by (simp add: Settle settle_disabled)
  qed
next
  case (LogDone m fault)
  with assms have mn: "m \<noteq> n" by simp
  show ?thesis
  proof (cases "\<exists>e. phase_of s m = Some (Logging e)")
    case True
    then obtain e where e: "phase_of s m = Some (Logging e)" by blast
    show ?thesis using assms mn by (simp add: LogDone phase_of_logDone[OF e])
  next
    case False
    then show ?thesis using assms by (simp add: LogDone logDone_disabled)
  qed
next
  case (NotifyDone m q)
  with assms have mn: "m \<noteq> n" by simp
  show ?thesis
  proof (cases "phase_of s m = Some Notifying")
    case True
    then show ?thesis using assms mn by (simp add: NotifyDone phase_of_notifyDone)
  next
    case False
    then show ?thesis using assms by (simp add: NotifyDone notifyDone_disabled)
  qed
next
  case (Advance t)
  then show ?thesis using assms by simp
qed

lemma finished_stable:
  assumes "phase_of s n = Some Finished"
  shows "phase_of (step ev s) n = Some Finished"
proof (cases "own_event n ev")
  case False
  then show ?thesis using assms phase_stable by blast
next
  case True
  then show ?thesis using assms
    by (cases ev) (simp_all add: settle_disabled logDone_disabled notifyDone_disabled)
qed

lemma finished_run:
  "phase_of s n = Some Finished \<Longrightarrow> phase_of (run evs s) n = Some Finished"
  by (induction evs arbitrary: s) (simp_all add: finished_stable)

lemma completions_stable:
  assumes "\<not> own_event n ev"
  shows "completions n (step ev s) = completions n s"
proof (cases ev)
  case (Settle m r)
  with assms have mn: "m \<noteq> n" by simp
  show ?thesis
    by (cases "phase_of s m = Some Running") (simp_all add: Settle completions_settle settle_disabled mn mn[symmetric])
next
  case (NotifyDone m q)
  with assms have mn: "m \<noteq> n" by simp
  show ?thesis
    by (cases "phase_of s m = Some Notifying")
      (simp_all add: NotifyDone completions_notifyDone notifyDone_disabled mn mn[symmetric])
qed simp_all

lemma data_webhook_resume:
  "n < length (tasks s) \<Longrightarrow> data (tasks (webhook_resume md r s) ! n) = data (tasks s ! n)"
  by (auto simp: webhook_resume_def processInBackground_def markAsProcessing_def nth_append
      split: sum.splits)

lemma data_finish [simp]: "data (tasks (finish n s) ! m) = data (tasks s ! m)"
  by (simp add: finish_def markAsCompleted_def)

lemma data_stable:
  assumes "n < length (tasks s)"
  shows "data (tasks (step ev s) ! n) = data (tasks s ! n)"
proof (cases ev)
  case (Webhook md)
  then show ?thesis using assms
    by (auto simp: webhook_def isMessageProcessed_begin_def data_webhook_resume
        split: prod.splits option.splits if_splits)
next
  case (QueryDone h q)
  then show ?thesis using assms
    by (auto simp: queryDone_def isMessageProcessed_end_def Let_def data_webhook_resume
        split: prod.splits sum.splits if_splits)
next
  case Immediate
  then show ?thesis
    by (auto simp: immediate_def processWithLock_enter_def split: option.splits)
next
  case (Settle m r)
  then show ?thesis
    by (auto simp: settle_def Let_def processInBackground_resume_def processWithLock_exit_def
        split: sum.splits)
next
  case (LogDone m fault)
  then show ?thesis
    by (auto simp: logDone_def logProcessingError_def processInBackground_logged_def
        split: option.splits phase.splits sum.splits)
next
  case (NotifyDone m q)
  then show ?thesis
    by (auto simp: notifyDone_def sendErrorNotification_def processInBackground_notified_def
        split: sum.splits)
next
  case (Advance t)
  then show ?thesis by (simp add: advance_def)
qed

lemma others_run:
  assumes "phase_of s n = Some p" and "active p" and "\<forall>ev \<in> set xs. \<not> own_event n ev"
  shows "phase_of (run xs s) n = Some p \<and> completions n (run xs s) = completions n s
       \<and> data (tasks (run xs s) ! n) = data (tasks s ! n)"
  using assms
proof (induction xs arbitrary: s)
  case Nil
  then show ?case by simp
next
  case (Cons ev xs)
  have nl: "n < length (tasks s)" using Cons.prems(1) by (auto dest: phase_of_SomeD)
  have p: "phase_of (step ev s) n = Some p"
    using phase_stable[OF Cons.prems(1)] Cons.prems(2,3) by simp
  show ?case
    using Cons.IH[OF p Cons.prems(2)] Cons.prems(3) completions_stable[of n ev s]
      data_stable[OF nl, of ev]
    by simp
qed


lemma settle_ok_marker:
  assumes "phase_of s n = Some Running"
  shows "messageId (data (tasks s ! n)) \<notin> processingMessages (settle n (Inr u) s)"
  using phase_of_SomeD[OF assms]
  by (simp add: settle_def Let_def processInBackground_resume_def processWithLock_exit_def)

lemma notifyDone_marker:
  assumes "phase_of s n = Some Notifying"
  shows "messageId (data (tasks s ! n)) \<notin> processingMessages (notifyDone n q s)"
  using phase_of_SomeD[OF assms]
  by (auto simp: notifyDone_def sendErrorNotification_def processInBackground_notified_def
      split: sum.splits)

lemma active_simps [simp]: "active Running" "active (Logging e)" "active Notifying"
  by (simp_all add: active_def)

lemma success_path:
  assumes r: "phase_of s n = Some Running"
    and o: "\<forall>ev \<in> set xs. \<not> own_event n ev"
  shows "phase_of (run (xs @ [Settle n (Inr ())]) s) n = Some Finished
       \<and> completions n (run (xs @ [Settle n (Inr ())]) s) = completions n s + 1
       \<and> messageId (data (tasks s ! n)) \<notin> processingMessages (run (xs @ [Settle n (Inr ())]) s)"
proof -
  note a = others_run[OF r _ o, simplified]
  from a have r1: "phase_of (run xs s) n = Some Running" by simp
  show ?thesis
    using a settle_ok_marker[OF r1, of "()"]
    by (simp add: run_append phase_of_settle[OF r1] completions_settle[OF r1])
qed

lemma failure_path:
  assumes r: "phase_of s n = Some Running"
    and o: "\<forall>ev \<in> set (xs @ ys @ zs). \<not> own_event n ev"
    and s': "s' = run (xs @ [Settle n (Inl e)] @ ys @ [LogDone n fault] @ zs @ [NotifyDone n q]) s"
  shows "phase_of s' n = Some Finished
       \<and> completions n s' = completions n s + 1
       \<and> messageId (data (tasks s ! n)) \<notin> processingMessages s'"
proof -
  from o have ox: "\<forall>ev \<in> set xs. \<not> own_event n ev" and oy: "\<forall>ev \<in> set ys. \<not> own_event n ev"
    and oz: "\<forall>ev \<in> set zs. \<not> own_event n ev" by auto
  define s1 where "s1 = run xs s"
  define s2 where "s2 = settle n (Inl e) s1"
  define s3 where "s3 = run ys s2"
  define s4 where "s4 = logDone n fault s3"
  define s5 where "s5 = run zs s4"
  have e': "s' = notifyDone n q s5"
    unfolding s' s5_def s4_def s3_def s2_def s1_def by (simp add: run_append)
  note a1 = others_run[OF r _ ox, simplified, folded s1_def]
  from a1 have r1: "phase_of s1 n = Some Running" by simp
  have nl1: "n < length (tasks s1)" using r1 by (auto dest: phase_of_SomeD)
  have p2: "phase_of s2 n = Some (Logging e)" unfolding s2_def by (simp add: phase_of_settle[OF r1])
  have c2: "completions n s2 = completions n s1" unfolding s2_def by (simp add: completions_settle[OF r1])
  have d2: "data (tasks s2 ! n) = data (tasks s1 ! n)"
    unfolding s2_def using data_stable[OF nl1, of "Settle n (Inl e)"] by simp
  note a3 = others_run[OF p2 _ oy, simplified, folded s3_def]
  from a3 have p3: "phase_of s3 n = Some (Logging e)" by simp
  have nl3: "n < length (tasks s3)" using p3 by (auto dest: phase_of_SomeD)
  have p4: "phase_of s4 n = Some Notifying" unfolding s4_def by (simp add: phase_of_logDone[OF p3])
  have c4: "completions n s4 = completions n s3" unfolding s4_def by simp
  have d4: "data (tasks s4 ! n) = data (tasks s3 ! n)"
    unfolding s4_def using data_stable[OF nl3, of "LogDone n fault"] by simp
  note a5 = others_run[OF p4 _ oz, simplified, folded s5_def]
  from a5 have p5: "phase_of s5 n = Some Notifying" by simp
  have d: "data (tasks s5 ! n) = data (tasks s ! n)" using a1 d2 a3 d4 a5 by simp
  have c: "completions n s5 = completions n s" using a1 c2 a3 c4 a5 by simp
  show ?thesis
    unfolding e' using notifyDone_marker[OF p5, of q] d c
    by (simp add: phase_of_notifyDone[OF p5] completions_notifyDone[OF p5])
qed

subsection \<open>The error record and the timers along a run\<close>

lemma errors_settle [simp]: "processing_errors (settle n r s) = processing_errors s"
  by (auto simp: settle_def Let_def processInBackground_resume_def processWithLock_exit_def
      split: sum.splits)

lemma errors_notifyDone [simp]: "processing_errors (notifyDone n q s) = processing_errors s"
  by (auto simp: notifyDone_def sendErrorNotification_def processInBackground_notified_def
      split: sum.splits)

lemma errors_immediate [simp]: "processing_errors (immediate s) = processing_errors s"
  by (auto simp: immediate_def processWithLock_enter_def split: option.splits)

lemma errors_webhook [simp]: "processing_errors (webhook md s) = processing_errors s"
  by (auto simp: webhook_def isMessageProcessed_begin_def webhook_resume_def
      processInBackground_def markAsProcessing_def split: sum.splits)

lemma errors_queryDone [simp]: "processing_errors (queryDone h q s) = processing_errors s"
  by (auto simp: queryDone_def isMessageProcessed_end_def webhook_resume_def Let_def
      processInBackground_def markAsProcessing_def split: sum.splits)

lemma errors_advance [simp]: "processing_errors (advance t s) = processing_errors s"
  by (simp add: advance_def)

lemma upsert_monotone:
  "tbl m = Some r \<Longrightarrow>
   \<exists>r'. upsert_error mid msg stk t tbl m = Some r' \<and> retry_count r \<le> retry_count r'"
  by (auto simp: upsert_error_def split: option.splits)

lemma log_monotone:
  "processing_errors s m = Some r \<Longrightarrow>
   \<exists>r'. processing_errors (snd (logProcessingError mid err fault s)) m = Some r'
      \<and> retry_count r \<le> retry_count r'"
  by (cases fault) (auto simp: logProcessingError_def upsert_monotone)

lemma errors_logged [simp]:
  "processing_errors (processInBackground_logged n r s) = processing_errors s"
  by (simp add: processInBackground_logged_def split: sum.splits)

lemma errors_logDone:
  "processing_errors (logDone n fault s) =
     (case phase_of s n of
        Some (Logging e) \<Rightarrow>
          processing_errors (snd (logProcessingError (messageId (data (tasks s ! n))) e fault s))
      | _ \<Rightarrow> processing_errors s)"
  by (simp add: logDone_def phase_of_def case_prod_beta split: phase.splits)

lemma step_monotone:
  assumes "processing_errors s m = Some r"
  shows "\<exists>r'. processing_errors (step ev s) m = Some r' \<and> retry_count r \<le> retry_count r'"
proof (cases ev)
  case (LogDone n fault)
  show ?thesis
    unfolding LogDone step.simps errors_logDone
    using log_monotone[OF assms] assms
    by (simp split: option.splits phase.splits)
qed (use assms in simp_all)

lemma run_monotone:
  "processing_errors s m = Some r \<Longrightarrow>
   \<exists>r'. processing_errors (run evs s) m = Some r' \<and> retry_count r \<le> retry_count r'"
proof (induction evs arbitrary: s r)
  case Nil
  then show ?case by simp
next
  case (Cons ev evs)
  from step_monotone[OF Cons.prems, of ev] obtain r1 where
    r1: "processing_errors (step ev s) m = Some r1" "retry_count r \<le> retry_count r1" by blast
  from Cons.IH[OF r1(1)] r1(2) show ?case by auto
qed

lemma timers_step:
  assumes "tm \<in> set (timers s)" and "tm \<notin> set (timers (step ev s))"
  shows "\<exists>t. ev = Advance t \<and> fst tm \<le> t"
proof (cases ev)
  case (Webhook md)
  then show ?thesis using assms
    by (auto simp: webhook_def isMessageProcessed_begin_def webhook_resume_def
        processInBackground_def markAsProcessing_def split: if_splits)
next
  case (QueryDone h q)
  then show ?thesis using assms
    by (auto simp: queryDone_def isMessageProcessed_end_def webhook_resume_def Let_def
        processInBackground_def markAsProcessing_def split: sum.splits if_splits)
next
  case Immediate
  then show ?thesis using assms
    by (auto simp: immediate_def processWithLock_enter_def split: option.splits if_splits)
next
  case (Settle n r)
  then show ?thesis using assms
    by (auto simp: settle_def Let_def processInBackground_resume_def processWithLock_exit_def
        split: sum.splits if_splits)
next
  case (LogDone n fault)
  then show ?thesis using assms
    by (auto simp: logDone_def logProcessingError_def processInBackground_logged_def
        split: option.splits phase.splits if_splits)
next
  case (NotifyDone n q)
  then show ?thesis using assms
    by (auto simp: notifyDone_def sendErrorNotification_def processInBackground_notified_def
        split: sum.splits if_splits)
next
  case (Advance t)
  then show ?thesis using assms by (auto simp: advance_def due_def)
qed

lemma advance_fires:
  "(d, mid) \<in> set (timers s) \<Longrightarrow> d \<le> t \<Longrightarrow> mid \<notin> processingMessages (advance t s)"
  by (force simp: advance_def due_def)



subsection \<open>The pipeline leaves the outside alone until an active business is found\<close>

lemma effects_fetchConfig: "effects (snd (fetchConfig md env w)) = effects w"
  by (simp add: fetchConfig_def case_prod_beta)

lemma effects_fetchBusinessAndTone: "effects (snd (fetchBusinessAndTone bid env w)) = effects w"
  by (simp add: fetchBusinessAndTone_def case_prod_beta Let_def split: sum.splits)

lemma settle_ok:
  assumes "phase_of s n = Some Running"
  shows "processing_errors (settle n (Inr ()) s) = processing_errors s"
    and "notified (settle n (Inr ()) s) = notified s"
    and "console (settle n (Inr ()) s) = console s"
    and "processed (settle n (Inr ()) s) = processed s + 1"
    and "failures (settle n (Inr ()) s) = failures s"
  using phase_of_SomeD[OF assms]
  by (simp_all add: settle_def Let_def processInBackground_resume_def processWithLock_exit_def)

lemma a_running_state:
  "phase_of (run a_running initial_processor) 0 = Some Running"
  "data (tasks (run a_running initial_processor) ! 0) = msgA"
  "processed (run a_running initial_processor) = 0"
  "processingMessages (run a_running initial_processor) = {''wamid.A''}"
  by (simp_all add: a_running_def machine_defs msgA_def Let_def phase_of_def)

lemma msgA_id: "messageId msgA = ''wamid.A''"
  by (simp add: msgA_def)

lemma initial_effects: "effects initial_world = []"
  by (simp add: initial_world_def)

lemmas pipeline_defs = processMessageFull_def fetchConfig_def fetchBusinessAndTone_def reply_def
  call_def andThen_def field_def render_def getCachedWhatsAppConfig_def getCachedBusiness_def
  getCachedBusinessTone_def getCachedBody_def cache_get_def cache_set_def await_fetch_def
  initial_world_def initial_cache_def inactive_business_def active_business_def

lemma inactive_eval:
  "fetchConfig msgA inactive_business initial_world = (Inr (Obj [''business_id'' \<mapsto> ''7'']),
      snd (fetchConfig msgA inactive_business initial_world))"
  "fst (fetchBusinessAndTone ''7'' inactive_business (snd (fetchConfig msgA inactive_business initial_world)))
      = Inr (Obj [''name'' \<mapsto> ''Acme'', ''status'' \<mapsto> ''inactive''], Null)"
  by (simp_all add: pipeline_defs msgA_def Let_def)

text \<open>
  With an active business and every service answering, the pipeline saves the message
  and the reply and sends the reply.
\<close>

lemma active_business_is_served: "fst (processMessageFull msgA active_business initial_world) = Inr ()
  \<and> effects (snd (processMessageFull msgA active_business initial_world)) =
     [ConfigSet, ReadMarked ''wamid.A'', Reaction ''5215500000001'' ''wamid.A'' ''hourglass'',
      ConversationOpened ''7'' ''5215500000001'', MessageSaved ''wamid.A'' True,
      MessageSaved ''wamid.A'' False, Reaction ''5215500000001'' ''wamid.A'' [],
      MessageSent ''5215500000001'' ''Hello'']"
  by (simp add: pipeline_defs msgA_def Let_def)


section \<open>The message processor against its specification\<close>

subsection \<open>The duplicate filter fails open\<close>

text \<open>
  C7: when the message is not in \<open>processingMessages\<close>, so that the database is asked,
  and the query throws, \<open>isMessageProcessed\<close> returns \<open>false\<close> (the error is printed);
  whatever the query does, \<open>isMessageProcessed\<close> returns a boolean and throws nothing;
  and the webhook request whose query threw goes on to accept the message.
\<close>

theorem C7_fails_open:
  assumes "mid \<notin> processingMessages s"
  shows "isMessageProcessed mid (Inl e) s =
           (Inr False, s\<lparr>console := console s @ [''Error checking message duplicate:'']\<rparr>)
       \<and> (\<forall>q. \<exists>b. fst (isMessageProcessed mid q s) = Inr b)
       \<and> (\<forall>md h. h < length (requests s) \<and> requests s ! h = (md, Checking) \<longrightarrow>
            tasks (queryDone h (Inl e) s) = tasks s @ [\<lparr>data = md, phase = Queued\<rparr>])"
  using assms
  by (auto simp: isMessageProcessed_def isMessageProcessed_begin_def isMessageProcessed_end_def
      queryDone_def webhook_resume_def processInBackground_def markAsProcessing_def
      split: sum.splits)


theorem C7_fails_open_witness:
  "isMessageProcessed ''wamid.A'' (Inl lost) initial_processor =
     (Inr False, initial_processor\<lparr>console := [''Error checking message duplicate:'']\<rparr>)"
proof -
  have m: "''wamid.A'' \<notin> processingMessages initial_processor"
    by (simp add: initial_processor_def)
  show ?thesis
    using C7_fails_open[OF m, of lost] by (simp add: initial_processor_def)
qed

subsection \<open>The error record\<close>

text \<open>
  C8: \<open>logProcessingError\<close> never throws. When its query runs, a message without a
  record gets one with \<open>retry_count = 0\<close>, and a message with a record has its
  \<open>retry_count\<close> raised by exactly one; the records of other messages are untouched.
  When its query throws, the state is unchanged but for the printed line. Along any
  run of the event loop the \<open>retry_count\<close> of a message's record never decreases.
\<close>

theorem C8_retry_count:
  "fst (logProcessingError mid err fault s) = Inr ()
   \<and> (fault = None \<and> processing_errors s mid = None \<longrightarrow>
        map_option retry_count (processing_errors (snd (logProcessingError mid err fault s)) mid) = Some 0)
   \<and> (\<forall>r. fault = None \<and> processing_errors s mid = Some r \<longrightarrow>
        map_option retry_count (processing_errors (snd (logProcessingError mid err fault s)) mid)
          = Some (retry_count r + 1))
   \<and> (\<forall>m. m \<noteq> mid \<longrightarrow>
        processing_errors (snd (logProcessingError mid err fault s)) m = processing_errors s m)
   \<and> (\<forall>logError. fault = Some logError \<longrightarrow>
        snd (logProcessingError mid err fault s) =
          s\<lparr>console := console s @ [''Failed to log error to database:'']\<rparr>)
   \<and> (\<forall>evs r. processing_errors s mid = Some r \<longrightarrow>
        (\<exists>r'. processing_errors (run evs s) mid = Some r' \<and> retry_count r \<le> retry_count r'))"
  using run_monotone[of s mid]
  by (auto simp: logProcessingError_def upsert_error_def split: option.splits)


theorem C8_retry_count_witness:
  "map_option retry_count
     (processing_errors (snd (logProcessingError ''wamid.A'' boom None initial_processor)) ''wamid.A'')
     = Some 0
   \<and> map_option retry_count
     (processing_errors
        (snd (logProcessingError ''wamid.A'' boom None
           (snd (logProcessingError ''wamid.A'' boom None initial_processor)))) ''wamid.A'')
     = Some 1
   \<and> snd (logProcessingError ''wamid.A'' boom (Some lost) initial_processor) =
        initial_processor\<lparr>console := [''Failed to log error to database:'']\<rparr>"
proof -
  define s1 where "s1 = snd (logProcessingError ''wamid.A'' boom None initial_processor)"
  have n: "processing_errors initial_processor ''wamid.A'' = None"
    by (simp add: initial_processor_def)
  have first: "map_option retry_count (processing_errors s1 ''wamid.A'') = Some 0"
    using C8_retry_count[of "''wamid.A''" boom None initial_processor] n
    by (simp add: s1_def)
  then obtain r where r: "processing_errors s1 ''wamid.A'' = Some r" "retry_count r = 0"
    by auto
  have second: "map_option retry_count
      (processing_errors (snd (logProcessingError ''wamid.A'' boom None s1)) ''wamid.A'') = Some 1"
    using C8_retry_count[of "''wamid.A''" boom None s1] r by simp
  have third: "snd (logProcessingError ''wamid.A'' boom (Some lost) initial_processor) =
        initial_processor\<lparr>console := [''Failed to log error to database:'']\<rparr>"
    using C8_retry_count[of "''wamid.A''" boom "Some lost" initial_processor]
    by (simp add: initial_processor_def)
  show ?thesis using first second third by (simp add: s1_def)
qed

subsection \<open>The timer of the acceptance marker\<close>

text \<open>
  C10: \<open>markAsProcessing\<close> adds the id and a timer due 120000 ms later;
  \<open>markAsCompleted\<close> leaves the timers as they are, and no event but the clock reaching
  a timer's instant removes it; when the clock reaches that instant the id is deleted,
  whatever the tasks are doing. So the marker of A, accepted at time 0, is gone at
  120 s while the pipeline of A is still running; and when A has been accepted again
  at 100 s, the timer of the first acceptance deletes the marker at 120 s, 20 s after
  the second acceptance, whose own timer (due at 220 s) is still pending and whose
  pipeline is running.
\<close>

theorem C10_timer_is_never_cancelled:
  "markAsProcessing mid s =
      s\<lparr>processingMessages := insert mid (processingMessages s),
        timers := timers s @ [(clock s + 120000, mid)]\<rparr>
   \<and> timers (markAsCompleted mid s) = timers s
   \<and> ((d, mid) \<in> set (timers s) \<and> (d, mid) \<notin> set (timers (step ev s)) \<longrightarrow>
        (\<exists>t. ev = Advance t \<and> d \<le> t))
   \<and> ((d, mid) \<in> set (timers s) \<and> d \<le> t \<longrightarrow> mid \<notin> processingMessages (step (Advance t) s))
   \<and> ''wamid.A'' \<in> processingMessages (run a_running initial_processor)
   \<and> phase_of (run (a_running @ [Advance 120000]) initial_processor) 0 = Some Running
   \<and> ''wamid.A'' \<notin> processingMessages (run (a_running @ [Advance 120000]) initial_processor)
   \<and> clock (run accepted_again initial_processor) = 100000
   \<and> ''wamid.A'' \<in> processingMessages (run accepted_again initial_processor)
   \<and> timers (run accepted_again initial_processor) = [(120000, ''wamid.A''), (220000, ''wamid.A'')]
   \<and> phase_of (run (accepted_again @ [Advance 120000]) initial_processor) 1 = Some Running
   \<and> ''wamid.A'' \<notin> processingMessages (run (accepted_again @ [Advance 120000]) initial_processor)
   \<and> timers (run (accepted_again @ [Advance 120000]) initial_processor) = [(220000, ''wamid.A'')]"
proof -
  have general: "markAsProcessing mid s =
      s\<lparr>processingMessages := insert mid (processingMessages s),
        timers := timers s @ [(clock s + 120000, mid)]\<rparr>
   \<and> timers (markAsCompleted mid s) = timers s
   \<and> ((d, mid) \<in> set (timers s) \<and> (d, mid) \<notin> set (timers (step ev s)) \<longrightarrow>
        (\<exists>t. ev = Advance t \<and> d \<le> t))
   \<and> ((d, mid) \<in> set (timers s) \<and> d \<le> t \<longrightarrow> mid \<notin> processingMessages (step (Advance t) s))"
    using timers_step[of "(d, mid)" s ev] advance_fires[of d mid s t]
    by (auto simp: markAsProcessing_def markAsCompleted_def)
  have a1: "''wamid.A'' \<in> processingMessages (run a_running initial_processor)"
    by (simp add: a_running_state)
  have a2: "phase_of (run (a_running @ [Advance 120000]) initial_processor) 0 = Some Running"
    by (simp add: run_append a_running_state)
  have a3: "''wamid.A'' \<notin> processingMessages (run (a_running @ [Advance 120000]) initial_processor)"
    by (simp add: a_running_def machine_defs msgA_def Let_def)
  have b1: "clock (run accepted_again initial_processor) = 100000"
    by (simp add: accepted_again_def machine_defs msgA_def Let_def)
  have b2: "''wamid.A'' \<in> processingMessages (run accepted_again initial_processor)"
    by (simp add: accepted_again_def machine_defs msgA_def Let_def)
  have b3: "timers (run accepted_again initial_processor) = [(120000, ''wamid.A''), (220000, ''wamid.A'')]"
    by (simp add: accepted_again_def machine_defs msgA_def Let_def)
  have b4: "phase_of (run accepted_again initial_processor) 1 = Some Running"
    by (simp add: accepted_again_def machine_defs msgA_def Let_def phase_of_def)
  have b5: "phase_of (run (accepted_again @ [Advance 120000]) initial_processor) 1 = Some Running"
    using b4 by (simp add: run_append)
  have b6: "''wamid.A'' \<notin> processingMessages (run (accepted_again @ [Advance 120000]) initial_processor)"
    using advance_fires[of 120000 "''wamid.A''" "run accepted_again initial_processor" 120000] b3
    by (simp add: run_append)
  have b7: "timers (run (accepted_again @ [Advance 120000]) initial_processor) = [(220000, ''wamid.A'')]"
    using b3 by (simp add: run_append advance_def due_def)
  show ?thesis using general a1 a2 a3 b1 b2 b3 b5 b6 b7 by blast
qed

theorem C10_timer_is_never_cancelled_witness:
  "(120000, ''wamid.A'') \<in> set (timers (run a_running initial_processor))
   \<and> (120000, ''wamid.A'') \<in> set (timers (step (Settle 0 (Inr ())) (run a_running initial_processor)))
   \<and> ''wamid.A'' \<notin> processingMessages (step (Advance 120000) (run a_running initial_processor))"
proof -
  have t: "(120000, ''wamid.A'') \<in> set (timers (run a_running initial_processor))"
    by (simp add: a_running_def machine_defs msgA_def Let_def)
  show ?thesis
    using t C10_timer_is_never_cancelled[of "''wamid.A''" "run a_running initial_processor" 120000
        "Settle 0 (Inr ())" 120000]
    by auto
qed

subsection \<open>The marker is cleared when the task ends\<close>

text \<open>
  C3: let task \<open>n\<close> be running in a state the event loop can reach. Whether its
  pipeline succeeds, or throws and the error record is then written or not and the
  apology is then sent or not, and whatever events of other tasks, requests and the
  clock come in between: up to then \<open>markAsCompleted\<close> has not been called for the
  task; when the task's last awaited call has returned the task is finished, its
  \<open>finally\<close> block has called \<open>markAsCompleted\<close> exactly once, and the id of its message
  is not in \<open>processingMessages\<close>; and nothing that happens later adds a second call.
\<close>

theorem C3_marker_cleared_exactly_once:
  assumes reach: "s = run pre initial_processor"
    and running: "phase_of s n = Some Running"
    and others: "\<forall>ev \<in> set (xs @ ys @ zs). \<not> own_event n ev"
    and outcome: "s' = run (xs @ [Settle n (Inr ())]) s \<or>
       s' = run (xs @ [Settle n (Inl e)] @ ys @ [LogDone n fault] @ zs @ [NotifyDone n q]) s"
  shows "completions n s = 0
       \<and> phase_of s' n = Some Finished
       \<and> completions n s' = 1
       \<and> messageId (data (tasks s ! n)) \<notin> processingMessages s'
       \<and> (\<forall>post. completions n (run post s') = 1)"
proof -
  have inv: "completed_once s"
    unfolding reach by (rule completed_once_run[OF completed_once_initial])
  have c0: "completions n s = 0"
    using inv[unfolded completed_once_def, rule_format, of n] running by simp
  from others have ox: "\<forall>ev \<in> set xs. \<not> own_event n ev" by auto
  have main: "phase_of s' n = Some Finished \<and> completions n s' = completions n s + 1
       \<and> messageId (data (tasks s ! n)) \<notin> processingMessages s'"
    using outcome
  proof
    assume "s' = run (xs @ [Settle n (Inr ())]) s"
    then show ?thesis using success_path[OF running ox] by simp
  next
    assume "s' = run (xs @ [Settle n (Inl e)] @ ys @ [LogDone n fault] @ zs @ [NotifyDone n q]) s"
    then show ?thesis by (rule failure_path[OF running others])
  qed
  have inv': "completed_once s'"
    using outcome completed_once_run[OF inv] by auto
  have post: "completions n (run post s') = 1" for post
  proof -
    have f: "phase_of (run post s') n = Some Finished" using main by (simp add: finished_run)
    show ?thesis
      using completed_once_run[OF inv', of post, unfolded completed_once_def, rule_format, of n] f
      by simp
  qed
  show ?thesis using c0 main post by simp
qed

theorem C3_marker_cleared_exactly_once_witness:
  "phase_of (run all_fails initial_processor) 0 = Some Finished
   \<and> completions 0 (run all_fails initial_processor) = 1
   \<and> ''wamid.A'' \<notin> processingMessages (run all_fails initial_processor)"
proof -
  have o: "\<forall>ev \<in> set ([] @ [] @ []). \<not> own_event 0 ev" by simp
  have e: "run all_fails initial_processor =
      run ([] @ [Settle 0 (Inl boom)] @ [] @ [LogDone 0 (Some lost)] @ [] @ [NotifyDone 0 (Inl lost)])
        (run a_running initial_processor)"
    by (simp add: all_fails_def a_running_def)
  show ?thesis
    using C3_marker_cleared_exactly_once[OF refl a_running_state(1) o disjI2[OF e]]
    by (simp add: a_running_state msgA_id)
qed

subsection \<open>A pipeline that returns early\<close>

text \<open>
  C9, as claimed: whenever the business record is absent or inactive, the pipeline
  returns early without throwing. The business is looked up beside its tone under one
  \<open>Promise.all\<close>, which rejects when the tone lookup throws, whatever the business
  lookup found. With the configuration found, the business inactive and the tone
  lookup throwing (the getter's second attempt as well), \<open>processMessageFull\<close> throws;
  the task then writes the error record, sends the apology, and counts an error and
  no processed message.
\<close>

theorem C9_counterexample:
  "fst (fetchConfig msgA tone_fails initial_world) = Inr (Obj [''business_id'' \<mapsto> ''7''])
   \<and> fst (getCachedBusiness ''7'' (getBusinessById tone_fails)
          (configCache (snd (fetchConfig msgA tone_fails initial_world))))
       = Inr (Obj [''name'' \<mapsto> ''Acme'', ''status'' \<mapsto> ''inactive''])
   \<and> fst (processMessageFull msgA tone_fails initial_world) = Inl lost
   \<and> map_option retry_count (processing_errors (run a_throws initial_processor) ''wamid.A'')
       = Some 0
   \<and> notified (run a_throws initial_processor) = [''5215500000001'']
   \<and> processed (run a_throws initial_processor) = 0
   \<and> failures (run a_throws initial_processor) = 1"
proof -
  have p: "fst (fetchConfig msgA tone_fails initial_world) = Inr (Obj [''business_id'' \<mapsto> ''7''])
   \<and> fst (getCachedBusiness ''7'' (getBusinessById tone_fails)
          (configCache (snd (fetchConfig msgA tone_fails initial_world))))
       = Inr (Obj [''name'' \<mapsto> ''Acme'', ''status'' \<mapsto> ''inactive''])
   \<and> fst (processMessageFull msgA tone_fails initial_world) = Inl lost"
    by (simp add: pipeline_defs tone_fails_def msgA_def Let_def)
  have m: "map_option retry_count (processing_errors (run a_throws initial_processor) ''wamid.A'')
       = Some 0
   \<and> notified (run a_throws initial_processor) = [''5215500000001'']
   \<and> processed (run a_throws initial_processor) = 0
   \<and> failures (run a_throws initial_processor) = 1"
    by (simp add: a_throws_def a_running_def machine_defs msgA_def lost_def Let_def)
  show ?thesis using p m by simp
qed

text \<open>
  C9, amended: let task \<open>n\<close> be running the pipeline for \<open>md\<close>. If the pipeline finds no
  WhatsApp configuration (the getter returns a falsy value), or if the lookups of the
  business and of its tone both return without throwing and the business is absent
  (falsy) or has the status \<open>inactive\<close>, then \<open>processMessageFull\<close> returns without
  throwing and without any call that saves a message or sends one; and when the
  task's promise settles with that outcome, no error record is written, no apology is
  sent, the task is finished with its marker cleared, and \<open>stats.processed\<close> has gone
  up by one while \<open>stats.errors\<close> has not moved.
\<close>

theorem C9_silent_drop:
  assumes running: "phase_of s n = Some Running"
    and md: "data (tasks s ! n) = md"
    and cfg: "fetchConfig md env w = (Inr whatsappConfig, w1)"
    and early: "\<not> truthy whatsappConfig \<or>
      (fetchBusinessAndTone (render (field ''business_id'' whatsappConfig)) env w1
         = (Inr (businessData, businessTone), w2)
       \<and> (\<not> truthy businessData \<or> field ''status'' businessData = Some ''inactive''))"
    and r: "r = fst (processMessageFull md env w)"
    and w': "w' = snd (processMessageFull md env w)"
    and s': "s' = settle n r s"
  shows "r = Inr ()
       \<and> effects w' = effects w
       \<and> processing_errors s' = processing_errors s
       \<and> notified s' = notified s
       \<and> phase_of s' n = Some Finished
       \<and> messageId md \<notin> processingMessages s'
       \<and> processed s' = processed s + 1
       \<and> failures s' = failures s"
proof -
  have e1: "effects w1 = effects w" using effects_fetchConfig[of md env w] cfg by simp
  have p: "processMessageFull md env w = (Inr (), w1) \<or>
           processMessageFull md env w = (Inr (), w2) \<and> effects w2 = effects w"
    using early
  proof
    assume "\<not> truthy whatsappConfig"
    then show ?thesis by (simp add: processMessageFull_def cfg)
  next
    assume a: "fetchBusinessAndTone (render (field ''business_id'' whatsappConfig)) env w1
         = (Inr (businessData, businessTone), w2)
       \<and> (\<not> truthy businessData \<or> field ''status'' businessData = Some ''inactive'')"
    have e2: "effects w2 = effects w1"
      using effects_fetchBusinessAndTone[of "render (field ''business_id'' whatsappConfig)" env w1] a
      by simp
    show ?thesis using a e1 e2 by (auto simp: processMessageFull_def cfg Let_def)
  qed
  have r': "r = Inr ()" and ew: "effects w' = effects w"
    using p e1 unfolding r w' by auto
  show ?thesis
    using r' ew settle_ok[OF running] settle_ok_marker[OF running, of "()"] md
    by (simp add: s' phase_of_settle[OF running])
qed


theorem C9_silent_drop_witness:
  "fst (processMessageFull msgA inactive_business initial_world) = Inr ()
   \<and> effects (snd (processMessageFull msgA inactive_business initial_world)) = []
   \<and> ''wamid.A'' \<notin> processingMessages
        (settle 0 (fst (processMessageFull msgA inactive_business initial_world))
           (run a_running initial_processor))
   \<and> processed
        (settle 0 (fst (processMessageFull msgA inactive_business initial_world))
           (run a_running initial_processor)) = 1"
proof -
  define w1 where "w1 = snd (fetchConfig msgA inactive_business initial_world)"
  define w2 where "w2 = snd (fetchBusinessAndTone ''7'' inactive_business w1)"
  have c: "fetchConfig msgA inactive_business initial_world =
      (Inr (Obj [''business_id'' \<mapsto> ''7'']), w1)"
    unfolding w1_def by (rule inactive_eval(1))
  have b: "fetchBusinessAndTone (render (field ''business_id'' (Obj [''business_id'' \<mapsto> ''7''])))
        inactive_business w1
      = (Inr (Obj [''name'' \<mapsto> ''Acme'', ''status'' \<mapsto> ''inactive''], Null), w2)"
    using inactive_eval(2) unfolding w1_def w2_def
    by (simp add: field_def render_def prod_eq_iff)
  have i: "field ''status'' (Obj [''name'' \<mapsto> ''Acme'', ''status'' \<mapsto> ''inactive''])
      = Some ''inactive''"
    by (simp add: field_def)
  note t = C9_silent_drop[OF a_running_state(1) a_running_state(2) c
      disjI2[OF conjI[OF b disjI2[OF i]]] refl refl refl]
  from t have r: "fst (processMessageFull msgA inactive_business initial_world) = Inr ()"
    by simp
  show ?thesis
    using t unfolding r by (simp add: a_running_state msgA_id initial_effects)
qed

subsection \<open>Three messages of one conversation\<close>

text \<open>
  C1 claims that tasks of one conversation key never overlap. In the code every task
  that finds the lock taken awaits the same promise, and all of them resume when it
  settles. With A running and B and C waiting, the end of A starts the pipeline of B
  and, before B has settled, the pipeline of C: B and C run at the same time.
\<close>

theorem C1_two_waiters_overlap:
  "conversationKey msgA = conversationKey msgB
   \<and> conversationKey msgB = conversationKey msgC
   \<and> map (\<lambda>t. messageId (data t)) (tasks (run three_in_a_row initial_processor))
       = [''wamid.A'', ''wamid.B'', ''wamid.C'']
   \<and> trace (run three_in_a_row initial_processor)
       = [Started 0, Settled 0 (Inr ()), Started 1, Started 2, Completed 0]
   \<and> map phase (tasks (run three_in_a_row initial_processor)) = [Finished, Running, Running]"
  by (simp add: three_in_a_row_def msgA_def msgB_def msgC_def machine_defs Let_def)

text \<open>
  C6 claims that a task that settles removes the key from \<open>conversationLocks\<close> only if
  the entry is still its own. The code deletes the key whatever it holds. After the
  schedule above the entry of the key is the promise of C; when B settles, the entry
  is deleted although C is still running, and D, delivered next, finds no lock and
  starts beside C.
\<close>

theorem C6_delete_is_unconditional:
  "conversationLocks (run three_in_a_row initial_processor) (conversationKey msgB) = Some 2
   \<and> conversationLocks (run (three_in_a_row @ [Settle 1 (Inr ())]) initial_processor)
        (conversationKey msgC) = None
   \<and> map phase (tasks (run (three_in_a_row @ [Settle 1 (Inr ())]) initial_processor))
        = [Finished, Finished, Running]
   \<and> conversationKey msgD = conversationKey msgC
   \<and> map phase (tasks (run then_a_fourth initial_processor))
        = [Finished, Finished, Running, Running]"
  by (simp add: then_a_fourth_def three_in_a_row_def msgA_def msgB_def msgC_def msgD_def
      machine_defs Let_def)

subsection \<open>One message delivered twice\<close>

text \<open>
  C2 claims that a message delivered twice runs one pipeline. The handler awaits the
  database between the look into \<open>processingMessages\<close> and \<open>markAsProcessing\<close>; a second
  delivery that arrives in between passes the same checks. Both deliveries are
  accepted, no duplicate is counted, and the pipeline runs twice for the one id.
\<close>

theorem C2_both_deliveries_run:
  "map (\<lambda>t. messageId (data t)) (tasks (run delivered_twice initial_processor))
       = [''wamid.A'', ''wamid.A'']
   \<and> duplicates (run delivered_twice initial_processor) = 0
   \<and> trace (run delivered_twice initial_processor)
       = [Started 0, Settled 0 (Inr ()), Started 1, Completed 0, Settled 1 (Inr ()), Completed 1]"
  by (simp add: delivered_twice_def msgA_def machine_defs Let_def)

end
